theory Spec2Isabelle
  imports Main
begin

section \<open>The Python IPC bridge of \<^verbatim>\<open>source/lib/python-bridge.ts\<close>\<close>

text \<open>
  The bridge spawns a Python worker and talks to it in JSON lines. This theory embeds the
  one-shot invoker \<^verbatim>\<open>pythonCall\<close> and the persistent \<^verbatim>\<open>PythonBridge\<close> class, together
  with the parts of the JavaScript runtime their behaviour depends on: strings of UTF-16
  code units, \<^verbatim>\<open>Buffer.toString()\<close>, \<^verbatim>\<open>String.prototype.trim/split/slice\<close>,
  \<^verbatim>\<open>JSON.parse\<close>, insertion-ordered \<^verbatim>\<open>Map\<close>s and promises that settle once.
\<close>

subsection \<open>JavaScript strings\<close>

text \<open>
  A chunk read from a pipe is a \<^verbatim>\<open>Buffer\<close>: a list of bytes, here \<^typ>\<open>char list\<close>.
  A JavaScript string is a list of UTF-16 code units, each a number below 65536.
\<close>

type_synonym bytes = "char list"
type_synonym code_unit = nat
type_synonym jsstring = "code_unit list"

text \<open>A string literal of the source (all of them are ASCII) as code units.\<close>

definition lit :: "string \<Rightarrow> jsstring" where
  "lit cs = map of_char cs"

definition NL :: code_unit where
  "NL = 10"

text \<open>
  \<^verbatim>\<open>s.trim()\<close> removes the code units of WhiteSpace and LineTerminator (ECMA-262) from
  both ends.
\<close>

definition is_ws :: "code_unit \<Rightarrow> bool" where
  "is_ws c \<longleftrightarrow>
     c = 9 \<or> c = 10 \<or> c = 11 \<or> c = 12 \<or> c = 13 \<or> c = 32 \<or> c = 160 \<or> c = 5760 \<or>
     (8192 \<le> c \<and> c \<le> 8202) \<or> c = 8232 \<or> c = 8233 \<or> c = 8239 \<or> c = 8287 \<or>
     c = 12288 \<or> c = 65279"

definition trim :: "jsstring \<Rightarrow> jsstring" where
  "trim s = rev (dropWhile is_ws (rev (dropWhile is_ws s)))"

text \<open>\<^verbatim>\<open>s.trimEnd()\<close>, the second half of \<^verbatim>\<open>trim\<close>.\<close>

definition trim_end :: "jsstring \<Rightarrow> jsstring" where
  "trim_end s = rev (dropWhile is_ws (rev s))"

text \<open>
  \<^verbatim>\<open>s.split('\n')\<close>: the pieces between newlines; never the empty array
  (\<^verbatim>\<open>''.split('\n')\<close> is \<^verbatim>\<open>['']\<close>).
\<close>

fun split_nl :: "jsstring \<Rightarrow> jsstring list" where
  "split_nl [] = [[]]"
| "split_nl (c # cs) =
     (if c = NL then [] # split_nl cs
      else (case split_nl cs of [] \<Rightarrow> [[c]] | l # ls \<Rightarrow> (c # l) # ls))"

text \<open>\<^verbatim>\<open>s.slice(-n)\<close>: the last \<open>n\<close> code units, the whole string when it is shorter.\<close>

definition slice_last :: "nat \<Rightarrow> jsstring \<Rightarrow> jsstring" where
  "slice_last n s = drop (length s - n) s"

text \<open>The decimal digits of a natural number, as a template literal prints them.\<close>

fun dec :: "nat \<Rightarrow> jsstring" where
  "dec n = (if n < 10 then [48 + n] else dec (n div 10) @ [48 + n mod 10])"

declare dec.simps [simp del]

text \<open>
  \<^verbatim>\<open>`${code}`\<close> for the exit code passed to a \<^verbatim>\<open>'close'\<close> listener: a number, or \<^verbatim>\<open>null\<close>
  when the process was ended by a signal.
\<close>

definition show_code :: "int option \<Rightarrow> jsstring" where
  "show_code code =
     (case code of
        None \<Rightarrow> lit ''null''
      | Some i \<Rightarrow> (if i < 0 then lit ''-'' @ dec (nat (- i)) else dec (nat i)))"

subsection \<open>\<^verbatim>\<open>Buffer.toString()\<close>: UTF-8 decoding\<close>

text \<open>
  \<^verbatim>\<open>data.toString()\<close> decodes the bytes of one chunk as UTF-8. Every maximal ill-formed
  part of the input, an incomplete sequence at the end of the chunk included, becomes
  U+FFFD; a code point above U+FFFF becomes a surrogate pair. The decoder state is the
  code point collected so far, the number of continuation bytes still needed and the
  range allowed for the next byte.
\<close>

record utf8_state =
  cp :: nat
  need :: nat
  lower :: nat
  upper :: nat

definition utf8_init :: utf8_state where
  "utf8_init = \<lparr>cp = 0, need = 0, lower = 128, upper = 191\<rparr>"

definition emit_cp :: "nat \<Rightarrow> jsstring" where
  "emit_cp c =
     (if c < 65536 then [c]
      else [55296 + (c - 65536) div 1024, 56320 + (c - 65536) mod 1024])"

definition utf8_lead :: "nat \<Rightarrow> jsstring \<times> utf8_state" where
  "utf8_lead b =
     (if b < 128 then ([b], utf8_init)
      else if 194 \<le> b \<and> b \<le> 223 then
        ([], \<lparr>cp = b mod 32, need = 1, lower = 128, upper = 191\<rparr>)
      else if 224 \<le> b \<and> b \<le> 239 then
        ([], \<lparr>cp = b mod 16, need = 2,
              lower = (if b = 224 then 160 else 128),
              upper = (if b = 237 then 159 else 191)\<rparr>)
      else if 240 \<le> b \<and> b \<le> 244 then
        ([], \<lparr>cp = b mod 8, need = 3,
              lower = (if b = 240 then 144 else 128),
              upper = (if b = 244 then 143 else 191)\<rparr>)
      else ([65533], utf8_init))"

definition utf8_step :: "utf8_state \<Rightarrow> nat \<Rightarrow> jsstring \<times> utf8_state" where
  "utf8_step st b =
     (if need st = 0 then utf8_lead b
      else if lower st \<le> b \<and> b \<le> upper st then
        (let c = cp st * 64 + b mod 64
         in if need st = 1 then (emit_cp c, utf8_init)
            else ([], \<lparr>cp = c, need = need st - 1, lower = 128, upper = 191\<rparr>))
      else (case utf8_lead b of (out, st') \<Rightarrow> (65533 # out, st')))"

fun utf8_run :: "utf8_state \<Rightarrow> bytes \<Rightarrow> jsstring" where
  "utf8_run st [] = (if need st = 0 then [] else [65533])"
| "utf8_run st (b # bs) =
     (case utf8_step st (of_char b) of (out, st') \<Rightarrow> out @ utf8_run st' bs)"

definition toString :: "bytes \<Rightarrow> jsstring" where
  "toString bs = utf8_run utf8_init bs"

subsection \<open>\<^verbatim>\<open>JSON.parse\<close>\<close>

text \<open>
  The values \<^verbatim>\<open>JSON.parse\<close> returns. A number is kept as its literal (the double it
  denotes is a function of the literal; floating point is not modelled). An object is its
  properties in order of first insertion, each name once (that JavaScript enumerates
  integer-like names first is not modelled; nothing below depends on the order).
\<close>

datatype json =
    JNull
  | JBool bool
  | JNumber jsstring
  | JString jsstring
  | JArray "json list"
  | JObject "(jsstring \<times> json) list"

datatype token =
    TLBrace | TRBrace | TLBracket | TRBracket | TColon | TComma
  | TStr jsstring | TNum jsstring | TTrue | TFalse | TNull

text \<open>The number grammar: \<^verbatim>\<open>-? (0 | [1-9][0-9]*) (. [0-9]+)? ([eE] [+-]? [0-9]+)?\<close>\<close>

datatype numstate =
  NStart | NMinus | NZero | NInt | NDot | NFrac | NExp | NExpSign | NExpDigits

definition is_digit :: "code_unit \<Rightarrow> bool" where
  "is_digit c \<longleftrightarrow> 48 \<le> c \<and> c \<le> 57"

definition num_step :: "numstate \<Rightarrow> code_unit \<Rightarrow> numstate option" where
  "num_step q c =
     (case q of
        NStart \<Rightarrow> (if c = 45 then Some NMinus else if c = 48 then Some NZero
                   else if is_digit c then Some NInt else None)
      | NMinus \<Rightarrow> (if c = 48 then Some NZero else if is_digit c then Some NInt else None)
      | NZero \<Rightarrow> (if c = 46 then Some NDot else if c = 101 \<or> c = 69 then Some NExp
                  else None)
      | NInt \<Rightarrow> (if is_digit c then Some NInt else if c = 46 then Some NDot
                 else if c = 101 \<or> c = 69 then Some NExp else None)
      | NDot \<Rightarrow> (if is_digit c then Some NFrac else None)
      | NFrac \<Rightarrow> (if is_digit c then Some NFrac else if c = 101 \<or> c = 69 then Some NExp
                  else None)
      | NExp \<Rightarrow> (if c = 43 \<or> c = 45 then Some NExpSign
                 else if is_digit c then Some NExpDigits else None)
      | NExpSign \<Rightarrow> (if is_digit c then Some NExpDigits else None)
      | NExpDigits \<Rightarrow> (if is_digit c then Some NExpDigits else None))"

fun num_run :: "numstate \<Rightarrow> jsstring \<Rightarrow> bool" where
  "num_run q [] = (q = NZero \<or> q = NInt \<or> q = NFrac \<or> q = NExpDigits)"
| "num_run q (c # cs) = (case num_step q c of None \<Rightarrow> False | Some q' \<Rightarrow> num_run q' cs)"

definition valid_number :: "jsstring \<Rightarrow> bool" where
  "valid_number s = num_run NStart s"

text \<open>
  The lexer reads one code unit at a time. Between tokens it is \<open>LIdle\<close>; inside a
  string it collects the decoded code units, inside a number or a word
  (\<^verbatim>\<open>true\<close>, \<^verbatim>\<open>false\<close>, \<^verbatim>\<open>null\<close>) the literal, which is checked when it ends.
\<close>

datatype lexmode =
    LIdle
  | LStr jsstring
  | LEsc jsstring
  | LHex jsstring "nat list"
  | LNum jsstring
  | LWord jsstring

definition is_json_ws :: "code_unit \<Rightarrow> bool" where
  "is_json_ws c \<longleftrightarrow> c = 9 \<or> c = 10 \<or> c = 13 \<or> c = 32"

definition is_num_char :: "code_unit \<Rightarrow> bool" where
  "is_num_char c \<longleftrightarrow> is_digit c \<or> c = 43 \<or> c = 45 \<or> c = 46 \<or> c = 69 \<or> c = 101"

definition is_letter :: "code_unit \<Rightarrow> bool" where
  "is_letter c \<longleftrightarrow> 97 \<le> c \<and> c \<le> 122"

definition punct :: "code_unit \<Rightarrow> token option" where
  "punct c =
     (if c = 123 then Some TLBrace else if c = 125 then Some TRBrace
      else if c = 91 then Some TLBracket else if c = 93 then Some TRBracket
      else if c = 58 then Some TColon else if c = 44 then Some TComma else None)"

definition word_token :: "jsstring \<Rightarrow> token option" where
  "word_token w =
     (if w = lit ''true'' then Some TTrue else if w = lit ''false'' then Some TFalse
      else if w = lit ''null'' then Some TNull else None)"

definition num_token :: "jsstring \<Rightarrow> token option" where
  "num_token s = (if valid_number s then Some (TNum s) else None)"

definition escape :: "code_unit \<Rightarrow> code_unit option" where
  "escape c =
     (if c = 34 \<or> c = 92 \<or> c = 47 then Some c
      else if c = 98 then Some 8 else if c = 102 then Some 12
      else if c = 110 then Some 10 else if c = 114 then Some 13
      else if c = 116 then Some 9 else None)"

definition hex_val :: "code_unit \<Rightarrow> nat option" where
  "hex_val c =
     (if is_digit c then Some (c - 48)
      else if 97 \<le> c \<and> c \<le> 102 then Some (c - 87)
      else if 65 \<le> c \<and> c \<le> 70 then Some (c - 55) else None)"

definition lex_idle :: "code_unit \<Rightarrow> (token list \<times> lexmode) option" where
  "lex_idle c =
     (if is_json_ws c then Some ([], LIdle)
      else if c = 34 then Some ([], LStr [])
      else (case punct c of
              Some t \<Rightarrow> Some ([t], LIdle)
            | None \<Rightarrow>
                (if c = 45 \<or> is_digit c then Some ([], LNum [c])
                 else if is_letter c then Some ([], LWord [c]) else None)))"

definition lex_flush :: "token option \<Rightarrow> code_unit \<Rightarrow> (token list \<times> lexmode) option" where
  "lex_flush done c =
     (case done of
        None \<Rightarrow> None
      | Some t \<Rightarrow> (case lex_idle c of None \<Rightarrow> None | Some (ts, m) \<Rightarrow> Some (t # ts, m)))"

definition lex_step :: "lexmode \<Rightarrow> code_unit \<Rightarrow> (token list \<times> lexmode) option" where
  "lex_step m c =
     (case m of
        LIdle \<Rightarrow> lex_idle c
      | LStr acc \<Rightarrow>
          (if c = 34 then Some ([TStr acc], LIdle)
           else if c = 92 then Some ([], LEsc acc)
           else if c < 32 then None
           else Some ([], LStr (acc @ [c])))
      | LEsc acc \<Rightarrow>
          (case escape c of
             Some d \<Rightarrow> Some ([], LStr (acc @ [d]))
           | None \<Rightarrow> (if c = 117 then Some ([], LHex acc []) else None))
      | LHex acc hs \<Rightarrow>
          (case hex_val c of
             None \<Rightarrow> None
           | Some h \<Rightarrow>
               (if length hs = 3
                then Some ([], LStr (acc @ [foldl (\<lambda>v d. v * 16 + d) 0 (hs @ [h])]))
                else Some ([], LHex acc (hs @ [h]))))
      | LNum s \<Rightarrow>
          (if is_num_char c then Some ([], LNum (s @ [c])) else lex_flush (num_token s) c)
      | LWord w \<Rightarrow>
          (if is_letter c then Some ([], LWord (w @ [c])) else lex_flush (word_token w) c))"

definition lex_end :: "lexmode \<Rightarrow> token list option" where
  "lex_end m =
     (case m of
        LIdle \<Rightarrow> Some []
      | LNum s \<Rightarrow> map_option (\<lambda>t. [t]) (num_token s)
      | LWord w \<Rightarrow> map_option (\<lambda>t. [t]) (word_token w)
      | _ \<Rightarrow> None)"

fun lex_run :: "lexmode \<Rightarrow> jsstring \<Rightarrow> token list option" where
  "lex_run m [] = lex_end m"
| "lex_run m (c # cs) =
     (case lex_step m c of
        None \<Rightarrow> None
      | Some (ts, m') \<Rightarrow> map_option (\<lambda>us. ts @ us) (lex_run m' cs))"

text \<open>
  The parser is a pushdown machine over the tokens. A frame of the stack is a container
  whose next element is being read.
\<close>

datatype frame =
    FArr "json list"
  | FObj "(jsstring \<times> json) list" jsstring

datatype pstate =
    PValue
  | PArrStart
  | PObjStart
  | PObjKey "(jsstring \<times> json) list"
  | PObjColon "(jsstring \<times> json) list" jsstring
  | PAfter json

text \<open>Defining a property: a name already present keeps its place and takes the new value.\<close>

fun obj_set :: "(jsstring \<times> json) list \<Rightarrow> jsstring \<Rightarrow> json \<Rightarrow> (jsstring \<times> json) list" where
  "obj_set [] k v = [(k, v)]"
| "obj_set ((k', v') # ps) k v = (if k' = k then (k, v) # ps else (k', v') # obj_set ps k v)"

definition start_value :: "token \<Rightarrow> pstate option" where
  "start_value t =
     (case t of
        TLBracket \<Rightarrow> Some PArrStart
      | TLBrace \<Rightarrow> Some PObjStart
      | TStr s \<Rightarrow> Some (PAfter (JString s))
      | TNum s \<Rightarrow> Some (PAfter (JNumber s))
      | TTrue \<Rightarrow> Some (PAfter (JBool True))
      | TFalse \<Rightarrow> Some (PAfter (JBool False))
      | TNull \<Rightarrow> Some (PAfter JNull)
      | _ \<Rightarrow> None)"

definition pda_step :: "pstate \<Rightarrow> frame list \<Rightarrow> token \<Rightarrow> (pstate \<times> frame list) option" where
  "pda_step q st t =
     (case q of
        PValue \<Rightarrow> map_option (\<lambda>q'. (q', st)) (start_value t)
      | PArrStart \<Rightarrow>
          (if t = TRBracket then Some (PAfter (JArray []), st)
           else map_option (\<lambda>q'. (q', FArr [] # st)) (start_value t))
      | PObjStart \<Rightarrow>
          (case t of
             TRBrace \<Rightarrow> Some (PAfter (JObject []), st)
           | TStr k \<Rightarrow> Some (PObjColon [] k, st)
           | _ \<Rightarrow> None)
      | PObjKey items \<Rightarrow> (case t of TStr k \<Rightarrow> Some (PObjColon items k, st) | _ \<Rightarrow> None)
      | PObjColon items k \<Rightarrow>
          (if t = TColon then Some (PValue, FObj items k # st) else None)
      | PAfter v \<Rightarrow>
          (case st of
             [] \<Rightarrow> None
           | FArr items # st' \<Rightarrow>
               (if t = TComma then Some (PValue, FArr (items @ [v]) # st')
                else if t = TRBracket then Some (PAfter (JArray (items @ [v])), st')
                else None)
           | FObj items k # st' \<Rightarrow>
               (if t = TComma then Some (PObjKey (obj_set items k v), st')
                else if t = TRBrace then Some (PAfter (JObject (obj_set items k v)), st')
                else None)))"

fun pda_run :: "pstate \<Rightarrow> frame list \<Rightarrow> token list \<Rightarrow> json option" where
  "pda_run q st [] = (case (q, st) of (PAfter v, []) \<Rightarrow> Some v | _ \<Rightarrow> None)"
| "pda_run q st (t # ts) =
     (case pda_step q st t of None \<Rightarrow> None | Some (q', st') \<Rightarrow> pda_run q' st' ts)"

text \<open>\<^verbatim>\<open>JSON.parse(text)\<close>; \<open>None\<close> is the SyntaxError it throws.\<close>

definition JSON_parse :: "jsstring \<Rightarrow> json option" where
  "JSON_parse s = (case lex_run LIdle s of None \<Rightarrow> None | Some ts \<Rightarrow> pda_run PValue [] ts)"

subsection \<open>Promises and responses\<close>

text \<open>
  A promise settles once: the first \<^verbatim>\<open>resolve\<close> or \<^verbatim>\<open>reject\<close> decides it, later ones
  do nothing. \<^verbatim>\<open>IPCResponse\<close> is an interface, so a value cast to it is unchanged: a
  response is whatever JSON value was parsed. An \<^verbatim>\<open>Error\<close> is kept as its message.
\<close>

datatype outcome = Resolved json | Rejected jsstring

text \<open>The object literal \<^verbatim>\<open>{ ok: false, error: msg }\<close>.\<close>

definition failure :: "jsstring \<Rightarrow> json" where
  "failure msg = JObject [(lit ''ok'', JBool False), (lit ''error'', JString msg)]"

type_synonym params = "(jsstring \<times> json) list"

subsection \<open>The one-shot invoker \<^verbatim>\<open>pythonCall\<close>\<close>

text \<open>
  \<^verbatim>\<open>pythonCall(action, params)\<close> returns a promise whose executor spawns one worker,
  with the action and the serialised parameters as arguments, and then registers four
  listeners on it. What the statement
  \<^verbatim>\<open>spawn('python3', [..., action, JSON.stringify(params)], ...)\<close> does is not in the
  hands of the code: it throws (an argument list that is too long, an action with a
  null character; the parameters of this model are JSON values, for others, a cycle or
  a BigInt, the throw is that of \<^verbatim>\<open>JSON.stringify\<close>), or returns a child without its
  stdio streams (no file descriptor left), or returns a child with its three pipes.
  A throw inside the executor, that of the spawn statement or the TypeError of
  \<^verbatim>\<open>child.stdout.on\<close> on a missing stream (its message is not modelled), rejects the
  promise, and no listener is registered then.
\<close>

datatype spawn_result =
    SpawnThrows jsstring
  | ChildWithoutPipes
  | ChildWithPipes

text \<open>
  The state is what the listeners close over, the two accumulated strings and the
  promise, and whether the listeners were registered.
\<close>

record oneshot =
  action_of :: jsstring
  params_of :: params
  stdout :: jsstring
  stderr :: jsstring
  result :: "outcome option"
  listening :: bool

definition pythonCall :: "jsstring \<Rightarrow> params \<Rightarrow> spawn_result \<Rightarrow> oneshot" where
  "pythonCall action ps sp =
     (case sp of
        SpawnThrows msg \<Rightarrow>
          \<lparr>action_of = action, params_of = ps, stdout = [], stderr = [],
           result = Some (Rejected msg), listening = False\<rparr>
      | ChildWithoutPipes \<Rightarrow>
          \<lparr>action_of = action, params_of = ps, stdout = [], stderr = [],
           result = Some (Rejected (lit ''TypeError'')), listening = False\<rparr>
      | ChildWithPipes \<Rightarrow>
          \<lparr>action_of = action, params_of = ps, stdout = [], stderr = [],
           result = None, listening = True\<rparr>)"

definition settle1 :: "oneshot \<Rightarrow> outcome \<Rightarrow> oneshot" where
  "settle1 s out = (if result s = None then s\<lparr>result := Some out\<rparr> else s)"

text \<open>\<^verbatim>\<open>child.stdout.on('data', ...)\<close> and \<^verbatim>\<open>child.stderr.on('data', ...)\<close>.\<close>

definition pythonCall_stdout :: "oneshot \<Rightarrow> bytes \<Rightarrow> oneshot" where
  "pythonCall_stdout s data = s\<lparr>stdout := stdout s @ toString data\<rparr>"

definition pythonCall_stderr :: "oneshot \<Rightarrow> bytes \<Rightarrow> oneshot" where
  "pythonCall_stderr s data = s\<lparr>stderr := stderr s @ toString data\<rparr>"

text \<open>
  \<^verbatim>\<open>child.on('close', (code) => ...)\<close>: the last line that is not blank, or \<^verbatim>\<open>'{}'\<close>
  when there is none, is parsed; the \<^verbatim>\<open>catch\<close> branch builds the diagnostic.
\<close>

definition last_line :: "jsstring \<Rightarrow> jsstring" where
  "last_line out =
     (let lines = filter (\<lambda>l. trim l \<noteq> []) (split_nl (trim out))
      in if lines = [] then lit ''{}'' else last lines)"

definition exit_message :: "int option \<Rightarrow> jsstring \<Rightarrow> jsstring \<Rightarrow> jsstring" where
  "exit_message code err out =
     lit ''Python process exited with code '' @ show_code code @
     lit ''. stderr: '' @ slice_last 500 err @
     lit ''. stdout: '' @ slice_last 500 out"

definition pythonCall_close :: "oneshot \<Rightarrow> int option \<Rightarrow> oneshot" where
  "pythonCall_close s code =
     (case JSON_parse (last_line (stdout s)) of
        Some res \<Rightarrow> settle1 s (Resolved res)
      | None \<Rightarrow> settle1 s (Resolved (failure (exit_message code (stderr s) (stdout s)))))"

text \<open>\<^verbatim>\<open>child.on('error', (err) => ...)\<close>, with \<^verbatim>\<open>err.message\<close>.\<close>

definition pythonCall_error :: "oneshot \<Rightarrow> jsstring \<Rightarrow> oneshot" where
  "pythonCall_error s msg = settle1 s (Resolved (failure (lit ''Failed to spawn Python: '' @ msg)))"

text \<open>
  What can happen to a one-shot call after the executor has run: data on either stream,
  the close of the process with its exit code, an \<^verbatim>\<open>'error'\<close> event of the child (a
  spawn failure that \<^verbatim>\<open>spawn\<close> reports later instead of throwing, such as a missing
  executable), and time going by (in milliseconds). \<^verbatim>\<open>pythonCall\<close> registers a
  listener for each of the first four and no timer; an event reaches a listener only
  when the listeners were registered.
\<close>

datatype os_event =
    OutData bytes
  | ErrData bytes
  | Exit "int option"
  | SpawnFailed jsstring
  | Elapsed nat

fun dispatch :: "oneshot \<Rightarrow> os_event \<Rightarrow> oneshot" where
  "dispatch s (OutData d) = pythonCall_stdout s d"
| "dispatch s (ErrData d) = pythonCall_stderr s d"
| "dispatch s (Exit code) = pythonCall_close s code"
| "dispatch s (SpawnFailed msg) = pythonCall_error s msg"
| "dispatch s (Elapsed ms) = s"

definition pythonCall_step :: "oneshot \<Rightarrow> os_event \<Rightarrow> oneshot" where
  "pythonCall_step s e = (if listening s then dispatch s e else s)"

definition pythonCall_run :: "oneshot \<Rightarrow> os_event list \<Rightarrow> oneshot" where
  "pythonCall_run s evs = foldl pythonCall_step s evs"

fun ends_call :: "os_event \<Rightarrow> bool" where
  "ends_call (Exit code) = True"
| "ends_call (SpawnFailed msg) = True"
| "ends_call _ = False"

text \<open>The chunks that a list of events delivers on stdout, and on stderr, in order.\<close>

fun outs :: "os_event list \<Rightarrow> bytes list" where
  "outs [] = []"
| "outs (OutData d # evs) = d # outs evs"
| "outs (e # evs) = outs evs"

fun errs :: "os_event list \<Rightarrow> bytes list" where
  "errs [] = []"
| "errs (ErrData d # evs) = d # errs evs"
| "errs (e # evs) = errs evs"

subsection \<open>The persistent \<^verbatim>\<open>PythonBridge\<close>\<close>

text \<open>
  A \<^verbatim>\<open>Map\<close> iterates in insertion order: an association list with each key once.
  \<^verbatim>\<open>set\<close> on a key already present keeps its place.
\<close>

definition map_set :: "('k \<times> 'v) list \<Rightarrow> 'k \<Rightarrow> 'v \<Rightarrow> ('k \<times> 'v) list" where
  "map_set m k v =
     (if k \<in> fst ` set m then map (\<lambda>(k', v'). if k' = k then (k, v) else (k', v')) m
      else m @ [(k, v)])"

definition map_first_key :: "('k \<times> 'v) list \<Rightarrow> 'k option" where
  "map_first_key m = (case m of [] \<Rightarrow> None | (k, v) # rest \<Rightarrow> Some k)"

definition map_get :: "('k \<times> 'v) list \<Rightarrow> 'k \<Rightarrow> 'v option" where
  "map_get m k = map_of m k"

definition map_delete :: "('k \<times> 'v) list \<Rightarrow> 'k \<Rightarrow> ('k \<times> 'v) list" where
  "map_delete m k = filter (\<lambda>(k', v'). k' \<noteq> k) m"

text \<open>
  The fields of the class, then what the class acts on: the promises created by
  \<^verbatim>\<open>call\<close> (a promise is its index in \<open>promises\<close>, and the \<^verbatim>\<open>{resolve, reject}\<close>
  stored in \<open>pending\<close> is that index), the number of processes spawned so far (a
  \<^verbatim>\<open>ChildProcess\<close> is its index), the requests written to each process, the processes
  \<^verbatim>\<open>stop\<close> has ended and killed, and the strings handed to the stderr callback.
  \<open>nextId\<close> counts exactly; a JavaScript number does so below \<open>2^53\<close>. A spawn is
  taken to start a process: the class registers no listener for a spawn error.
\<close>

record bridge =
  child :: "nat option"
  buffer :: jsstring
  pending :: "(nat \<times> nat) list"
  nextId :: nat
  stderrCallback :: bool
  promises :: "outcome option list"
  spawned :: nat
  written :: "(nat \<times> jsstring \<times> params) list"
  killed :: "nat list"
  forwarded :: "jsstring list"

text \<open>\<^verbatim>\<open>new PythonBridge(onStderr)\<close>; the argument says whether a callback was given.\<close>

definition new_bridge :: "bool \<Rightarrow> bridge" where
  "new_bridge cb =
     \<lparr>child = None, buffer = [], pending = [], nextId = 1, stderrCallback = cb,
      promises = [], spawned = 0, written = [], killed = [], forwarded = []\<rparr>"

definition settle :: "outcome option list \<Rightarrow> nat \<Rightarrow> outcome \<Rightarrow> outcome option list" where
  "settle ps p out = (if p < length ps \<and> ps ! p = None then ps[p := Some out] else ps)"

definition start :: "bridge \<Rightarrow> bridge" where
  "start s = s\<lparr>child := Some (spawned s), spawned := spawned s + 1\<rparr>"

text \<open>The body of the loop of \<^verbatim>\<open>_processBuffer\<close>, for one line.\<close>

definition process_line :: "bridge \<Rightarrow> jsstring \<Rightarrow> bridge" where
  "process_line s line =
     (if trim line = [] then s
      else (case JSON_parse line of
              None \<Rightarrow> s
            | Some res \<Rightarrow>
                (case map_first_key (pending s) of
                   None \<Rightarrow> s
                 | Some firstKey \<Rightarrow>
                     (let handler = map_get (pending s) firstKey;
                          s' = s\<lparr>pending := map_delete (pending s) firstKey\<rparr>
                      in case handler of
                           None \<Rightarrow> s'
                         | Some p \<Rightarrow> s'\<lparr>promises := settle (promises s') p (Resolved res)\<rparr>))))"

definition processBuffer :: "bridge \<Rightarrow> bridge" where
  "processBuffer s =
     (let lines = split_nl (buffer s)
      in foldl process_line
           (s\<lparr>buffer := (if lines = [] then [] else last lines)\<rparr>) (butlast lines))"

text \<open>The three listeners that \<^verbatim>\<open>start\<close> registers.\<close>

definition bridge_stdout :: "bridge \<Rightarrow> bytes \<Rightarrow> bridge" where
  "bridge_stdout s data = processBuffer (s\<lparr>buffer := buffer s @ toString data\<rparr>)"

definition bridge_stderr :: "bridge \<Rightarrow> bytes \<Rightarrow> bridge" where
  "bridge_stderr s data =
     (if stderrCallback s then s\<lparr>forwarded := forwarded s @ [toString data]\<rparr> else s)"

definition closed_message :: jsstring where
  "closed_message = lit ''Python process closed''"

definition bridge_close :: "bridge \<Rightarrow> bridge" where
  "bridge_close s =
     s\<lparr>promises := foldl (\<lambda>ps (k, p). settle ps p (Rejected closed_message))
                     (promises s) (pending s),
       pending := []\<rparr>"

text \<open>
  \<^verbatim>\<open>call(action, params)\<close> returns the new promise. The request line
  \<^verbatim>\<open>JSON.stringify({action, params}) + '\n'\<close> is kept as the pair it serialises.
\<close>

definition call :: "bridge \<Rightarrow> jsstring \<Rightarrow> params \<Rightarrow> nat \<times> bridge" where
  "call s action ps =
     (let s1 = (if child s = None then start s else s);
          p = length (promises s1);
          s2 = s1\<lparr>promises := promises s1 @ [None]\<rparr>;
          id = nextId s2;
          s3 = s2\<lparr>nextId := id + 1\<rparr>;
          s4 = s3\<lparr>pending := map_set (pending s3) id p\<rparr>
      in case child s4 of
           None \<Rightarrow> (p, s4\<lparr>promises := settle (promises s4) p (Rejected (lit ''TypeError''))\<rparr>)
         | Some h \<Rightarrow> (p, s4\<lparr>written := written s4 @ [(h, action, ps)]\<rparr>))"

definition stop :: "bridge \<Rightarrow> bridge" where
  "stop s =
     (case child s of
        None \<Rightarrow> s
      | Some h \<Rightarrow> s\<lparr>killed := killed s @ [h], child := None\<rparr>)"

text \<open>
  What can happen to a bridge: the three methods, and the events of a spawned worker.
  The listeners are closures over the bridge, so an event acts on the bridge whichever
  worker it comes from.
\<close>

datatype event =
    Call jsstring params
  | Start
  | Stop
  | StdoutData bytes
  | StderrData bytes
  | Close

fun step :: "bridge \<Rightarrow> event \<Rightarrow> bridge" where
  "step s (Call action ps) = snd (call s action ps)"
| "step s Start = start s"
| "step s Stop = stop s"
| "step s (StdoutData d) = bridge_stdout s d"
| "step s (StderrData d) = bridge_stderr s d"
| "step s Close = bridge_close s"

definition run :: "bridge \<Rightarrow> event list \<Rightarrow> bridge" where
  "run s evs = foldl step s evs"

text \<open>Issuing several calls in order; the promises come back in the same order.\<close>

fun calls :: "bridge \<Rightarrow> (jsstring \<times> params) list \<Rightarrow> nat list \<times> bridge" where
  "calls s [] = ([], s)"
| "calls s ((action, ps) # reqs) =
     (case call s action ps of
        (p, s') \<Rightarrow> (case calls s' reqs of (qs, s'') \<Rightarrow> (p # qs, s'')))"

text \<open>
  What every reachable bridge satisfies: the keys of \<open>pending\<close> are distinct and below
  \<open>nextId\<close>, its promises are distinct, created and not yet settled, and the buffer
  holds no newline.
\<close>

definition bridge_inv :: "bridge \<Rightarrow> bool" where
  "bridge_inv s \<longleftrightarrow>
     distinct (map fst (pending s)) \<and> distinct (map snd (pending s)) \<and>
     list_all (\<lambda>(k, p). k < nextId s \<and> p < length (promises s) \<and> promises s ! p = None)
       (pending s) \<and>
     NL \<notin> set (buffer s)"

text \<open>
  The stdout listener seen on the decoded text: \<open>bridge_stdout s data\<close> is
  \<open>feed s (toString data)\<close>.
\<close>

definition feed :: "bridge \<Rightarrow> jsstring \<Rightarrow> bridge" where
  "feed s t = processBuffer (s\<lparr>buffer := buffer s @ t\<rparr>)"

section \<open>Evaluating the model on concrete inputs\<close>

lemmas js_eval =
  lit_def NL_def is_ws_def trim_def trim_end_def slice_last_def show_code_def dec.simps
  utf8_init_def emit_cp_def utf8_lead_def utf8_step_def toString_def
  is_digit_def num_step_def valid_number_def is_json_ws_def is_num_char_def is_letter_def
  punct_def word_token_def num_token_def escape_def hex_val_def
  lex_idle_def lex_flush_def lex_step_def lex_end_def start_value_def pda_step_def
  JSON_parse_def failure_def

lemmas oneshot_eval =
  pythonCall_def pythonCall_run_def pythonCall_step_def pythonCall_stdout_def pythonCall_stderr_def
  pythonCall_close_def pythonCall_error_def settle1_def last_line_def exit_message_def

lemmas bridge_eval =
  new_bridge_def run_def call_def start_def stop_def bridge_stdout_def bridge_stderr_def
  bridge_close_def processBuffer_def process_line_def settle_def closed_message_def
  map_set_def map_get_def map_delete_def map_first_key_def Let_def

section \<open>Lines, white space and blank input\<close>

lemma split_nl_not_Nil [simp]: "split_nl s \<noteq> []"
  by (induction s) (auto split: list.splits)

lemma split_nl_no_nl: "NL \<notin> set l \<Longrightarrow> split_nl l = [l]"
  by (induction l) auto

lemma split_nl_line: "NL \<notin> set l \<Longrightarrow> split_nl (l @ NL # rest) = l # split_nl rest"
  by (induction l) auto

text \<open>Splitting a text given in two parts: the last piece of the first part is continued.\<close>

lemma split_nl_append:
  "split_nl (xs @ ys) = butlast (split_nl xs) @ split_nl (last (split_nl xs) @ ys)"
proof (induction xs)
  case Nil
  show ?case by simp
next
  case (Cons c cs)
  show ?case
  proof (cases "c = NL")
    case True
    with Cons show ?thesis by simp
  next
    case False
    obtain l ls where sp: "split_nl cs = l # ls"
      by (cases "split_nl cs") auto
    show ?thesis
    proof (cases ls)
      case Nil
      with sp False Cons show ?thesis by simp
    next
      case (Cons m ms)
      with sp False Cons.IH show ?thesis by simp
    qed
  qed
qed

lemma split_nl_lines: "l \<in> set (split_nl s) \<Longrightarrow> NL \<notin> set l"
  by (induction s arbitrary: l) (auto split: if_splits list.splits)

lemma last_split_nl_no_nl: "NL \<notin> set (last (split_nl s))"
  by (rule split_nl_lines [where s = s]) simp

lemma split_nl_lines_concat:
  "list_all (\<lambda>l. NL \<notin> set l) ls \<Longrightarrow> NL \<notin> set r \<Longrightarrow>
   split_nl (concat (map (\<lambda>l. l @ [NL]) ls) @ r) = ls @ [r]"
  by (induction ls) (simp_all add: split_nl_no_nl split_nl_line)

lemma dropWhile_all_Nil: "\<forall>x \<in> set (dropWhile P xs). P x \<Longrightarrow> dropWhile P xs = []"
  using hd_dropWhile [of P xs] by (cases "dropWhile P xs") auto

lemma trim_Nil_iff: "trim s = [] \<longleftrightarrow> (\<forall>c \<in> set s. is_ws c)"
proof
  assume "trim s = []"
  then have "\<forall>x \<in> set (dropWhile is_ws s). is_ws x"
    by (simp add: trim_def dropWhile_eq_Nil_conv)
  then have "dropWhile is_ws s = []" by (rule dropWhile_all_Nil)
  then show "\<forall>c \<in> set s. is_ws c" by (simp add: dropWhile_eq_Nil_conv)
next
  assume "\<forall>c \<in> set s. is_ws c"
  then show "trim s = []" by (auto simp: trim_def dest: set_dropWhileD)
qed

lemma trim_empty: "trim [] = []"
  by (simp add: trim_def)

lemma last_dropWhile_suffix: "dropWhile P xs \<noteq> [] \<Longrightarrow> last (dropWhile P xs) = last xs"
  by (metis last_appendR takeWhile_dropWhile_id)

lemma trim_trim_end: "trim s = trim_end (dropWhile is_ws s)"
  by (simp add: trim_def trim_end_def)

lemma trim_end_Nil_iff: "trim_end s = [] \<longleftrightarrow> (\<forall>c \<in> set s. is_ws c)"
  by (simp add: trim_end_def dropWhile_eq_Nil_conv)

lemma trim_end_snoc:
  "trim_end (xs @ [c]) = (if is_ws c then trim_end xs else xs @ [c])"
  by (simp add: trim_end_def)

lemma trim_end_append_ws: "\<forall>c \<in> set post. is_ws c \<Longrightarrow> trim_end (xs @ post) = trim_end xs"
  by (simp add: trim_end_def dropWhile_append)

lemma trim_end_append:
  assumes "\<exists>c \<in> set ys. \<not> is_ws c"
  shows "trim_end (xs @ ys) = xs @ trim_end ys"
proof -
  from assms have "\<exists>c \<in> set (rev ys). \<not> is_ws c" by simp
  then have "dropWhile is_ws (rev ys @ rev xs) = dropWhile is_ws (rev ys) @ rev xs"
    by (auto simp: dropWhile_append)
  then show ?thesis by (simp add: trim_end_def)
qed


lemma set_trim_end: "set (trim_end s) \<subseteq> set s"
  by (auto simp: trim_end_def dest: set_dropWhileD)

lemma trim_end_last: "trim_end s \<noteq> [] \<Longrightarrow> \<not> is_ws (last (trim_end s))"
proof -
  assume "trim_end s \<noteq> []"
  then have ne: "dropWhile is_ws (rev s) \<noteq> []" by (simp add: trim_end_def)
  then have "\<not> is_ws (hd (dropWhile is_ws (rev s)))" by (rule hd_dropWhile)
  with ne show ?thesis by (simp add: trim_end_def last_rev)
qed

lemma trim_end_not_blank: "trim_end s \<noteq> [] \<Longrightarrow> trim (trim_end s) \<noteq> []"
proof -
  assume ne: "trim_end s \<noteq> []"
  then have "\<not> is_ws (last (trim_end s))" by (rule trim_end_last)
  moreover from ne have "last (trim_end s) \<in> set (trim_end s)" by simp
  ultimately show ?thesis by (auto simp: trim_Nil_iff)
qed


lemma is_ws_range: "is_ws c \<Longrightarrow> c \<le> 32 \<or> 160 \<le> c"
  unfolding is_ws_def by linarith

lemma lex_idle_range:
  "c \<le> 32 \<or> 160 \<le> c \<Longrightarrow> lex_idle c = None \<or> lex_idle c = Some ([], LIdle)"
  by (simp add: lex_idle_def punct_def is_digit_def is_letter_def) linarith

lemma lex_idle_ws: "is_ws c \<Longrightarrow> lex_idle c = None \<or> lex_idle c = Some ([], LIdle)"
  by (rule lex_idle_range) (rule is_ws_range)

lemma lex_run_blank:
  "\<forall>c \<in> set s. is_ws c \<Longrightarrow> lex_run LIdle s = None \<or> lex_run LIdle s = Some []"
proof (induction s)
  case Nil
  show ?case by (simp add: lex_end_def)
next
  case (Cons c cs)
  then have "is_ws c" by simp
  from lex_idle_ws [OF this] Cons show ?case
    by (auto simp: lex_step_def)
qed

text \<open>A blank line is never JSON, so the test \<^verbatim>\<open>!line.trim()\<close> drops nothing that would parse.\<close>

lemma JSON_parse_blank: "trim s = [] \<Longrightarrow> JSON_parse s = None"
  using lex_run_blank [of s] by (auto simp: trim_Nil_iff JSON_parse_def)

lemma JSON_parse_braces: "JSON_parse (lit ''{}'') = Some (JObject [])"
  by (simp add: js_eval)

text \<open>
  White space at the ends of a text that parses is JSON white space, and the text
  without it parses to the same value.
\<close>

lemma lex_run_ws_front:
  assumes "is_ws c" and "lex_run LIdle (c # cs) = Some ts"
  shows "lex_run LIdle cs = Some ts"
  using lex_idle_ws [OF assms(1)] assms(2)
  by (auto simp: lex_step_def split: option.splits)

lemma lex_run_dropWhile:
  "lex_run LIdle s = Some ts \<Longrightarrow> lex_run LIdle (dropWhile is_ws s) = Some ts"
  by (induction s) (auto dest: lex_run_ws_front)

lemma lex_step_ws_end:
  assumes "is_ws c" and "lex_step m c = Some (ts1, m')" and "lex_end m' = Some ts2"
  shows "lex_end m = Some (ts1 @ ts2)"
proof -
  from assms(1) have r: "c \<le> 32 \<or> 160 \<le> c" by (rule is_ws_range)
  from lex_idle_ws [OF assms(1)] have i: "lex_idle c = None \<or> lex_idle c = Some ([], LIdle)" .
  show ?thesis
  proof (cases m)
    case LIdle
    with assms(2,3) i show ?thesis by (auto simp: lex_step_def lex_end_def)
  next
    case (LStr acc)
    with assms(2,3) r show ?thesis
      by (auto simp: lex_step_def lex_end_def split: if_splits)
  next
    case (LEsc acc)
    from r have "escape c = None" and "c \<noteq> 117" by (auto simp: escape_def)
    with LEsc assms(2) show ?thesis
      by (simp add: lex_step_def)
  next
    case (LHex acc hs)
    from r have "hex_val c = None" by (auto simp: hex_val_def is_digit_def)
    with LHex assms(2) show ?thesis
      by (simp add: lex_step_def)
  next
    case (LNum s)
    from r have "\<not> is_num_char c" by (auto simp: is_num_char_def is_digit_def)
    with LNum assms(2,3) i show ?thesis
      by (auto simp: lex_step_def lex_flush_def lex_end_def split: option.splits)
  next
    case (LWord w)
    from r have "\<not> is_letter c" by (auto simp: is_letter_def)
    with LWord assms(2,3) i show ?thesis
      by (auto simp: lex_step_def lex_flush_def lex_end_def split: option.splits)
  qed
qed

lemma lex_run_ws_back:
  "is_ws c \<Longrightarrow> lex_run m (xs @ [c]) = Some ts \<Longrightarrow> lex_run m xs = Some ts"
proof (induction xs arbitrary: m ts)
  case Nil
  then show ?case
    by (auto split: option.splits dest: lex_step_ws_end)
next
  case (Cons x xs)
  then show ?case
    by (auto split: option.splits)
qed

lemma lex_run_trim_end: "lex_run m s = Some ts \<Longrightarrow> lex_run m (trim_end s) = Some ts"
proof (induction s rule: rev_induct)
  case Nil
  then show ?case by (simp add: trim_end_def)
next
  case (snoc c s)
  then show ?case
    by (auto simp: trim_end_snoc dest: lex_run_ws_back)
qed

lemma JSON_parse_dropWhile:
  "JSON_parse s = Some v \<Longrightarrow> JSON_parse (dropWhile is_ws s) = Some v"
  by (auto simp: JSON_parse_def split: option.splits dest: lex_run_dropWhile)

lemma JSON_parse_trim_end: "JSON_parse s = Some v \<Longrightarrow> JSON_parse (trim_end s) = Some v"
  by (auto simp: JSON_parse_def split: option.splits dest: lex_run_trim_end)

lemma JSON_parse_trim:
  assumes "JSON_parse s = Some v"
  shows "JSON_parse (trim s) = Some v"
  using JSON_parse_trim_end [OF JSON_parse_dropWhile [OF assms]]
  by (simp only: trim_trim_end)


text \<open>\<^verbatim>\<open>slice(-n)\<close> keeps the end of the string, and \<open>dec\<close> writes the digits of its number.\<close>

lemma slice_last_length: "length (slice_last n s) = min n (length s)"
  by (simp add: slice_last_def)

lemma slice_last_suffix: "take (length s - n) s @ slice_last n s = s"
  by (simp add: slice_last_def)

lemma slice_last_short: "length s \<le> n \<Longrightarrow> slice_last n s = s"
  by (simp add: slice_last_def)

lemma dec_digits: "c \<in> set (dec n) \<Longrightarrow> 48 \<le> c \<and> c \<le> 57"
proof (induction n arbitrary: c rule: dec.induct)
  case (1 n)
  show ?case
  proof (cases "n < 10")
    case True
    with "1.prems" show ?thesis by (simp add: dec.simps [of n])
  next
    case False
    with "1.prems" "1.IH" show ?thesis
      by (auto simp: dec.simps [of n])
  qed
qed

lemma dec_value: "foldl (\<lambda>v c. 10 * v + (c - 48)) 0 (dec n) = n"
proof (induction n rule: dec.induct)
  case (1 n)
  show ?case
  proof (cases "n < 10")
    case True
    then show ?thesis by (simp add: dec.simps [of n])
  next
    case False
    with "1.IH" show ?thesis
      by (simp add: dec.simps [of n])
  qed
qed

lemma show_code_null: "show_code None = lit ''null''"
  by (simp add: show_code_def)

lemma show_code_number:
  "show_code (Some i) = (if i < 0 then lit ''-'' @ dec (nat (- i)) else dec (nat i))"
  by (simp add: show_code_def)

section \<open>The loop of \<^verbatim>\<open>_processBuffer\<close>\<close>

lemma map_delete_front:
  "k \<notin> fst ` set rest \<Longrightarrow> map_delete ((k, p) # rest) k = rest"
  by (induction rest) (auto simp: map_delete_def)

lemma map_set_fresh: "k \<notin> fst ` set m \<Longrightarrow> map_set m k v = m @ [(k, v)]"
  by (simp add: map_set_def)

lemma process_line_parse:
  "process_line s l =
     (case JSON_parse l of
        None \<Rightarrow> s
      | Some v \<Rightarrow>
          (case pending s of
             [] \<Rightarrow> s
           | (k, p) # rest \<Rightarrow>
               s\<lparr>pending := map_delete (pending s) k,
                 promises := settle (promises s) p (Resolved v)\<rparr>))"
  by (cases "trim l = []")
     (auto simp: process_line_def JSON_parse_blank map_first_key_def map_get_def Let_def
           split: option.splits list.splits)

lemma process_line_front:
  assumes "distinct (map fst (pending s))" and "pending s = (k, p) # rest"
    and "JSON_parse l = Some v"
  shows "process_line s l =
           s\<lparr>pending := rest, promises := settle (promises s) p (Resolved v)\<rparr>"
proof -
  from assms(1,2) have "k \<notin> fst ` set rest" by simp
  then have "map_delete (pending s) k = rest"
    using assms(2) by (simp add: map_delete_front)
  with assms(2,3) show ?thesis by (simp add: process_line_parse)
qed

lemma process_line_idle: "pending s = [] \<Longrightarrow> process_line s l = s"
  by (simp add: process_line_parse split: option.splits)

lemma process_line_dropped:
  "trim l = [] \<or> JSON_parse l = None \<Longrightarrow> process_line s l = s"
  by (auto simp: process_line_parse JSON_parse_blank)

lemma process_line_buffer:
  "process_line (s\<lparr>buffer := b\<rparr>) l = (process_line s l)\<lparr>buffer := b\<rparr>"
  by (simp add: process_line_parse split: option.splits list.splits)

lemma process_lines_buffer:
  "foldl process_line (s\<lparr>buffer := b\<rparr>) ls = (foldl process_line s ls)\<lparr>buffer := b\<rparr>"
  by (induction ls arbitrary: s) (simp_all add: process_line_buffer)

lemma process_lines_idle: "pending s = [] \<Longrightarrow> foldl process_line s ls = s"
  by (induction ls) (simp_all add: process_line_idle)

lemma processBuffer_lines:
  "processBuffer s =
     (foldl process_line s (butlast (split_nl (buffer s))))\<lparr>buffer := last (split_nl (buffer s))\<rparr>"
  by (simp add: processBuffer_def Let_def process_lines_buffer)

lemma feed_lines:
  "feed s t =
     (foldl process_line s (butlast (split_nl (buffer s @ t))))
       \<lparr>buffer := last (split_nl (buffer s @ t))\<rparr>"
  by (simp add: feed_def processBuffer_lines process_lines_buffer)

lemma bridge_stdout_feed: "bridge_stdout s data = feed s (toString data)"
  by (simp add: bridge_stdout_def feed_def)

text \<open>Feeding a text in two parts is feeding it at once.\<close>

lemma feed_feed: "feed (feed s t) u = feed s (t @ u)"
proof -
  let ?b = "buffer s @ t"
  have sp: "split_nl (buffer s @ t @ u) =
              butlast (split_nl ?b) @ split_nl (last (split_nl ?b) @ u)"
    using split_nl_append [of ?b u] by simp
  have b1: "butlast (split_nl (buffer s @ t @ u)) =
              butlast (split_nl ?b) @ butlast (split_nl (last (split_nl ?b) @ u))"
    by (simp add: sp butlast_append)
  have l1: "last (split_nl (buffer s @ t @ u)) = last (split_nl (last (split_nl ?b) @ u))"
    by (simp add: sp)
  show ?thesis
    using b1 l1 by (simp add: feed_lines process_lines_buffer)
qed

lemma feed_Nil: "NL \<notin> set (buffer s) \<Longrightarrow> feed s [] = s"
  by (simp add: feed_lines split_nl_no_nl)

lemma feed_chunks:
  "NL \<notin> set (buffer s) \<Longrightarrow>
   foldl bridge_stdout s chunks = feed s (concat (map toString chunks))"
proof (induction chunks arbitrary: s)
  case Nil
  then show ?case by (simp add: feed_Nil)
next
  case (Cons c cs)
  have "NL \<notin> set (buffer (feed s (toString c)))"
    by (simp add: feed_lines last_split_nl_no_nl)
  then have "foldl bridge_stdout (feed s (toString c)) cs =
               feed (feed s (toString c)) (concat (map toString cs))"
    by (rule Cons.IH)
  moreover have "bridge_stdout s c = feed s (toString c)"
    by (rule bridge_stdout_feed)
  ultimately show ?case by (simp add: feed_feed)
qed

lemma run_stdout: "run s (map StdoutData chunks) = foldl bridge_stdout s chunks"
  unfolding run_def by (induction chunks arbitrary: s) simp_all

section \<open>Settling promises and the invariant of the bridge\<close>

lemma settle_length [simp]: "length (settle ps p out) = length ps"
  by (simp add: settle_def)

lemma settle_other: "q \<noteq> p \<Longrightarrow> settle ps p out ! q = ps ! q"
  by (simp add: settle_def)

lemma settle_fresh: "p < length ps \<Longrightarrow> ps ! p = None \<Longrightarrow> settle ps p out ! p = Some out"
  by (simp add: settle_def)

lemma bridge_inv_new: "bridge_inv (new_bridge cb)"
  by (simp add: bridge_inv_def new_bridge_def)

lemma bridge_inv_front:
  assumes "bridge_inv s" and "pending s = (k, p) # rest"
  shows "bridge_inv (s\<lparr>pending := rest, promises := settle (promises s) p out\<rparr>)"
proof -
  from assms have d: "p \<notin> snd ` set rest"
    by (simp add: bridge_inv_def)
  have "list_all (\<lambda>(k', q). k' < nextId s \<and> q < length (promises s) \<and>
          settle (promises s) p out ! q = None) rest"
    unfolding list_all_iff
  proof (intro ballI)
    fix e assume e: "e \<in> set rest"
    obtain k' q where kq: "e = (k', q)" by (cases e)
    from e kq d have "q \<noteq> p" by force
    moreover from assms e kq
    have "k' < nextId s \<and> q < length (promises s) \<and> promises s ! q = None"
      by (auto simp: bridge_inv_def list_all_iff)
    ultimately show "case e of (k', q) \<Rightarrow> k' < nextId s \<and> q < length (promises s) \<and>
          settle (promises s) p out ! q = None"
      by (simp add: kq settle_other)
  qed
  with assms show ?thesis by (simp add: bridge_inv_def)
qed

lemma bridge_inv_process_line: "bridge_inv s \<Longrightarrow> bridge_inv (process_line s l)"
proof -
  assume inv: "bridge_inv s"
  show ?thesis
  proof (cases "JSON_parse l")
    case None
    with inv show ?thesis by (simp add: process_line_dropped)
  next
    case (Some v)
    show ?thesis
    proof (cases "pending s")
      case Nil
      with inv show ?thesis by (simp add: process_line_idle)
    next
      case (Cons e rest)
      obtain k p where "e = (k, p)" by (cases e)
      with Cons have pe: "pending s = (k, p) # rest" by simp
      from inv have "distinct (map fst (pending s))" by (simp add: bridge_inv_def)
      from process_line_front [OF this pe Some] bridge_inv_front [OF inv pe]
      show ?thesis by simp
    qed
  qed
qed

lemma bridge_inv_process_lines: "bridge_inv s \<Longrightarrow> bridge_inv (foldl process_line s ls)"
  by (induction ls arbitrary: s) (simp_all add: bridge_inv_process_line)

lemma bridge_inv_buffer:
  "bridge_inv s \<Longrightarrow> NL \<notin> set b \<Longrightarrow> bridge_inv (s\<lparr>buffer := b\<rparr>)"
  by (simp add: bridge_inv_def)

lemma bridge_inv_feed: "bridge_inv s \<Longrightarrow> bridge_inv (feed s t)"
  by (simp add: feed_lines bridge_inv_buffer bridge_inv_process_lines last_split_nl_no_nl)

lemma pending_keys_below:
  "bridge_inv s \<Longrightarrow> nextId s \<notin> fst ` set (pending s)"
  by (auto simp: bridge_inv_def list_all_iff)

lemma call_enqueues:
  assumes "bridge_inv s"
  shows "fst (call s action ps) = length (promises s)"
    and "pending (snd (call s action ps)) = pending s @ [(nextId s, length (promises s))]"
    and "promises (snd (call s action ps)) = promises s @ [None]"
    and "nextId (snd (call s action ps)) = nextId s + 1"
    and "buffer (snd (call s action ps)) = buffer s"
  using pending_keys_below [OF assms]
  by (auto simp: call_def start_def Let_def map_set_fresh split: option.splits)

lemma bridge_inv_call:
  assumes "bridge_inv s"
  shows "bridge_inv (snd (call s action ps))"
proof -
  let ?s' = "snd (call s action ps)"
  note c = call_enqueues [OF assms, of action ps]
  from assms have k: "\<forall>e \<in> set (pending s). fst e < nextId s"
    and p: "\<forall>e \<in> set (pending s). snd e < length (promises s) \<and> promises s ! snd e = None"
    by (auto simp: bridge_inv_def list_all_iff)
  from k have "nextId s \<notin> fst ` set (pending s)" by auto
  moreover from p have "length (promises s) \<notin> snd ` set (pending s)" by auto
  moreover have "list_all (\<lambda>(k, p). k < nextId s + 1 \<and> p < length (promises s @ [None]) \<and>
      (promises s @ [None]) ! p = None) (pending s @ [(nextId s, length (promises s))])"
    using k p by (auto simp: list_all_iff nth_append)
  ultimately show ?thesis
    using assms by (simp add: bridge_inv_def c)
qed

lemma calls_enqueue:
  assumes "bridge_inv s"
  shows "map snd (pending (snd (calls s reqs))) = map snd (pending s) @ fst (calls s reqs) \<and>
         buffer (snd (calls s reqs)) = buffer s \<and> bridge_inv (snd (calls s reqs)) \<and>
         length (fst (calls s reqs)) = length reqs"
  using assms
proof (induction reqs arbitrary: s)
  case Nil
  then show ?case by simp
next
  case (Cons r reqs)
  obtain action ps where r: "r = (action, ps)" by (cases r)
  let ?s1 = "snd (call s action ps)"
  have inv1: "bridge_inv ?s1" using Cons.prems by (rule bridge_inv_call)
  note c = call_enqueues [OF Cons.prems, of action ps]
  from Cons.IH [OF inv1] c show ?case
    by (simp add: r split_beta)
qed

lemma bridge_close_rejects:
  assumes "distinct (map snd m)"
    and "list_all (\<lambda>(k, p). p < length ps \<and> ps ! p = None) m"
  shows "list_all (\<lambda>(k, p). foldl (\<lambda>ps (k, p). settle ps p out) ps m ! p = Some out) m \<and>
         (\<forall>q. q \<notin> snd ` set m \<longrightarrow> foldl (\<lambda>ps (k, p). settle ps p out) ps m ! q = ps ! q) \<and>
         length (foldl (\<lambda>ps (k, p). settle ps p out) ps m) = length ps"
  using assms
proof (induction m arbitrary: ps)
  case Nil
  show ?case by simp
next
  case (Cons e m)
  obtain k p where e: "e = (k, p)" by (cases e)
  let ?ps1 = "settle ps p out"
  let ?f = "foldl (\<lambda>ps (k, p). settle ps p out)"
  from Cons.prems e have pn: "p < length ps" "ps ! p = None" and notin: "p \<notin> snd ` set m"
    and dm: "distinct (map snd m)" by auto
  have "list_all (\<lambda>(k, q). q < length ?ps1 \<and> ?ps1 ! q = None) m"
    unfolding list_all_iff
  proof (intro ballI)
    fix x assume x: "x \<in> set m"
    obtain k' q where kq: "x = (k', q)" by (cases x)
    with x notin have "q \<noteq> p" by force
    with Cons.prems(2) x kq show "case x of (k, q) \<Rightarrow> q < length ?ps1 \<and> ?ps1 ! q = None"
      by (auto simp: list_all_iff settle_other)
  qed
  from Cons.IH [OF dm this]
  have a: "list_all (\<lambda>(k, q). ?f ?ps1 m ! q = Some out) m"
    and b: "\<And>q. q \<notin> snd ` set m \<Longrightarrow> ?f ?ps1 m ! q = ?ps1 ! q"
    and c: "length (?f ?ps1 m) = length ps"
    by simp_all
  have "?f ?ps1 m ! p = Some out"
    using b [OF notin] pn by (simp add: settle_fresh)
  moreover have "\<forall>q. q \<notin> snd ` set (e # m) \<longrightarrow> ?f ?ps1 m ! q = ps ! q"
    using b by (simp add: e settle_other)
  ultimately show ?case using a c by (simp add: e)
qed

lemma bridge_inv_close: "bridge_inv s \<Longrightarrow> bridge_inv (bridge_close s)"
  by (simp add: bridge_inv_def bridge_close_def)

lemma bridge_inv_start: "bridge_inv s \<Longrightarrow> bridge_inv (start s)"
  by (simp add: bridge_inv_def start_def)

lemma bridge_inv_stop: "bridge_inv s \<Longrightarrow> bridge_inv (stop s)"
  by (simp add: bridge_inv_def stop_def split: option.splits)

lemma bridge_inv_stderr: "bridge_inv s \<Longrightarrow> bridge_inv (bridge_stderr s d)"
  by (simp add: bridge_inv_def bridge_stderr_def)

lemma bridge_inv_stdout: "bridge_inv s \<Longrightarrow> bridge_inv (bridge_stdout s d)"
  by (simp add: bridge_stdout_feed bridge_inv_feed)

lemma bridge_inv_step: "bridge_inv s \<Longrightarrow> bridge_inv (step s e)"
  by (cases e)
     (simp_all add: bridge_inv_call bridge_inv_start bridge_inv_stop bridge_inv_stdout
        bridge_inv_stderr bridge_inv_close)

lemma bridge_inv_run: "bridge_inv s \<Longrightarrow> bridge_inv (run s evs)"
  unfolding run_def by (induction evs arbitrary: s) (simp_all add: bridge_inv_step)

text \<open>Every state a new bridge can reach satisfies the invariant.\<close>

lemma bridge_inv_reachable: "bridge_inv (run (new_bridge cb) evs)"
  by (rule bridge_inv_run) (rule bridge_inv_new)

text \<open>
  Parsed lines are handed out in the order of \<open>pending\<close>: the \<open>i\<close>-th value settles the
  \<open>i\<close>-th promise, nothing else changes.
\<close>

lemma process_lines_fifo:
  assumes "bridge_inv s" and "vs = List.map_filter JSON_parse ls"
  shows "pending (foldl process_line s ls) = drop (length vs) (pending s) \<and>
         length (promises (foldl process_line s ls)) = length (promises s) \<and>
         (\<forall>i. i < length vs \<longrightarrow> i < length (pending s) \<longrightarrow>
            promises (foldl process_line s ls) ! snd (pending s ! i) = Some (Resolved (vs ! i))) \<and>
         (\<forall>q. q \<notin> snd ` set (take (length vs) (pending s)) \<longrightarrow>
            promises (foldl process_line s ls) ! q = promises s ! q)"
  using assms
proof (induction ls arbitrary: s vs)
  case Nil
  then show ?case by simp
next
  case (Cons l ls)
  show ?case
  proof (cases "JSON_parse l")
    case None
    then have "process_line s l = s" by (simp add: process_line_dropped)
    moreover from None Cons.prems(2) have "vs = List.map_filter JSON_parse ls" by simp
    ultimately show ?thesis using Cons.IH [OF Cons.prems(1)] by simp
  next
    case (Some v)
    let ?s1 = "process_line s l"
    let ?ws = "List.map_filter JSON_parse ls"
    from Some Cons.prems(2) have vs: "vs = v # ?ws" by simp
    have inv1: "bridge_inv ?s1" using Cons.prems(1) by (rule bridge_inv_process_line)
    note IH = Cons.IH [OF inv1 refl]
    show ?thesis
    proof (cases "pending s")
      case Nil
      then have "?s1 = s" by (simp add: process_line_idle)
      with IH Nil show ?thesis by simp
    next
      case (Cons e rest)
      obtain k p where "e = (k, p)" by (cases e)
      with Cons have pe: "pending s = (k, p) # rest" by simp
      from \<open>bridge_inv s\<close> have dk: "distinct (map fst (pending s))"
        and dp: "p \<notin> snd ` set rest"
        and pn: "p < length (promises s)" "promises s ! p = None"
        using pe by (simp_all add: bridge_inv_def)
      have s1: "?s1 = s\<lparr>pending := rest, promises := settle (promises s) p (Resolved v)\<rparr>"
        using dk pe Some by (rule process_line_front)
      have p1: "pending ?s1 = rest"
        and q1: "promises ?s1 = settle (promises s) p (Resolved v)"
        by (simp_all add: s1)
      have notin: "p \<notin> snd ` set (take (length ?ws) rest)"
        using dp by (auto dest: in_set_takeD)
      from IH have a: "pending (foldl process_line ?s1 ls) = drop (length ?ws) rest"
        and b: "length (promises (foldl process_line ?s1 ls)) = length (promises s)"
        and c: "\<And>i. i < length ?ws \<Longrightarrow> i < length rest \<Longrightarrow>
              promises (foldl process_line ?s1 ls) ! snd (rest ! i) = Some (Resolved (?ws ! i))"
        and d: "\<And>q. q \<notin> snd ` set (take (length ?ws) rest) \<Longrightarrow>
              promises (foldl process_line ?s1 ls) ! q = settle (promises s) p (Resolved v) ! q"
        by (simp_all add: p1 q1)
      have first: "promises (foldl process_line ?s1 ls) ! p = Some (Resolved v)"
        using d [OF notin] pn by (simp add: settle_fresh)
      have idx: "\<forall>i. i < length (v # ?ws) \<longrightarrow> i < length (pending s) \<longrightarrow>
              promises (foldl process_line ?s1 ls) ! snd (pending s ! i) =
                Some (Resolved ((v # ?ws) ! i))"
      proof (intro allI impI)
        fix i assume "i < length (v # ?ws)" "i < length (pending s)"
        then show "promises (foldl process_line ?s1 ls) ! snd (pending s ! i) =
                Some (Resolved ((v # ?ws) ! i))"
          using first c by (cases i) (simp_all add: pe)
      qed
      have others: "\<forall>q. q \<notin> snd ` set (take (length (v # ?ws)) (pending s)) \<longrightarrow>
              promises (foldl process_line ?s1 ls) ! q = promises s ! q"
      proof (intro allI impI)
        fix q assume "q \<notin> snd ` set (take (length (v # ?ws)) (pending s))"
        then have "q \<noteq> p" and "q \<notin> snd ` set (take (length ?ws) rest)"
          by (simp_all add: pe)
        then show "promises (foldl process_line ?s1 ls) ! q = promises s ! q"
          using d by (simp add: settle_other)
      qed
      from a b idx others show ?thesis by (simp add: pe vs)
    qed
  qed
qed

section \<open>Facts about the one-shot invoker\<close>

lemma last_split_nl_after:
  assumes "NL \<notin> set l" and "q = [] \<or> last q = NL"
  shows "last (split_nl (q @ l)) = l"
proof (cases "q = []")
  case True
  with assms(1) show ?thesis by (simp add: split_nl_no_nl)
next
  case False
  with assms(2) obtain q' where q: "q = q' @ [NL]"
    by (metis append_butlast_last_id)
  have "split_nl (q' @ NL # l) =
          butlast (split_nl q') @ split_nl (last (split_nl q') @ NL # l)"
    by (rule split_nl_append)
  also have "split_nl (last (split_nl q') @ NL # l) = last (split_nl q') # split_nl l"
    by (rule split_nl_line) (rule last_split_nl_no_nl)
  finally show ?thesis using assms(1) by (simp add: q split_nl_no_nl)
qed

lemma filter_keeps_last:
  "xs \<noteq> [] \<Longrightarrow> P (last xs) \<Longrightarrow> filter P xs \<noteq> [] \<and> last (filter P xs) = last xs"
  by (cases xs rule: rev_cases) simp_all

lemma last_line_ends:
  assumes "q = [] \<or> last q = NL" and "NL \<notin> set t" and "trim t \<noteq> []"
    and "trim out = q @ t"
  shows "last_line out = t"
proof -
  have la: "last (split_nl (q @ t)) = t"
    using assms(2,1) by (rule last_split_nl_after)
  with assms(3) have keep: "trim (last (split_nl (q @ t))) \<noteq> []" by simp
  have "filter (\<lambda>x. trim x \<noteq> []) (split_nl (q @ t)) \<noteq> [] \<and>
        last (filter (\<lambda>x. trim x \<noteq> []) (split_nl (q @ t))) = last (split_nl (q @ t))"
    using split_nl_not_Nil keep by (rule filter_keeps_last)
  then show ?thesis by (simp add: last_line_def assms(4) la)
qed

text \<open>
  When the accumulated output is any text that is empty or ends a line, then a line \<open>l\<close>
  that is not blank, then only white space, the line parsed is \<open>l\<close> without the white
  space at its end, and without that at its start too when only white space precedes it.
\<close>

lemma last_line_framed:
  assumes "pre = [] \<or> last pre = NL" and "NL \<notin> set l" and "trim l \<noteq> []"
    and "\<forall>c \<in> set post. is_ws c"
  shows "last_line (pre @ l @ post) = (if \<forall>c \<in> set pre. is_ws c then trim l else trim_end l)"
proof -
  from assms(3) have nb: "\<exists>c \<in> set l. \<not> is_ws c" by (simp add: trim_Nil_iff)
  then have te: "trim_end l \<noteq> []" by (simp add: trim_end_Nil_iff)
  show ?thesis
  proof (cases "\<forall>c \<in> set pre. is_ws c")
    case True
    from nb have "dropWhile is_ws (l @ post) = dropWhile is_ws l @ post"
      by (auto simp: dropWhile_append)
    with True have "dropWhile is_ws (pre @ l @ post) = dropWhile is_ws l @ post"
      by (simp add: dropWhile_append)
    then have t: "trim (pre @ l @ post) = [] @ trim l"
      using assms(4) by (simp add: trim_trim_end trim_end_append_ws)
    have "NL \<notin> set (trim l)"
      using assms(2) set_trim_end [of "dropWhile is_ws l"]
      by (auto simp: trim_trim_end dest: set_dropWhileD)
    moreover have "trim (trim l) \<noteq> []"
    proof -
      have "trim l = trim_end (dropWhile is_ws l)" by (rule trim_trim_end)
      moreover from this assms(3) have "trim (trim_end (dropWhile is_ws l)) \<noteq> []"
        by (intro trim_end_not_blank) simp
      ultimately show ?thesis by simp
    qed
    ultimately have "last_line (pre @ l @ post) = trim l"
      using t by (intro last_line_ends [where q = "[]"]) simp_all
    with True show ?thesis by simp
  next
    case False
    let ?q = "dropWhile is_ws pre"
    from False have qne: "?q \<noteq> []" by (simp add: dropWhile_eq_Nil_conv)
    then have "last ?q = last pre" by (rule last_dropWhile_suffix)
    moreover from qne have "pre \<noteq> []" by auto
    ultimately have q: "?q = [] \<or> last ?q = NL" using assms(1) by simp
    from False have "dropWhile is_ws (pre @ l @ post) = ?q @ l @ post"
      by (auto simp: dropWhile_append)
    moreover have "trim_end ((?q @ l) @ post) = trim_end (?q @ l)"
      using assms(4) by (rule trim_end_append_ws)
    moreover have "trim_end (?q @ l) = ?q @ trim_end l"
      using nb by (rule trim_end_append)
    ultimately have t: "trim (pre @ l @ post) = ?q @ trim_end l"
      by (simp add: trim_trim_end)
    have "NL \<notin> set (trim_end l)"
      using assms(2) set_trim_end [of l] by auto
    moreover have "trim (trim_end l) \<noteq> []"
      using te by (rule trim_end_not_blank)
    ultimately have "last_line (pre @ l @ post) = trim_end l"
      using q t by (intro last_line_ends [where q = ?q]) simp_all
    with False show ?thesis by auto
  qed
qed

lemma last_line_blank: "trim out = [] \<Longrightarrow> last_line out = lit ''{}''"
  by (simp add: last_line_def trim_empty)

lemma pythonCall_run_Nil: "pythonCall_run s [] = s"
  by (simp add: pythonCall_run_def)

lemma pythonCall_run_snoc:
  "pythonCall_run s (evs @ [e]) = pythonCall_step (pythonCall_run s evs) e"
  by (simp add: pythonCall_run_def)

lemma pythonCall_run_append:
  "pythonCall_run s (evs @ evs') = pythonCall_run (pythonCall_run s evs) evs'"
  by (simp add: pythonCall_run_def)

lemma pythonCall_run_Cons:
  "pythonCall_run s (e # evs) = pythonCall_run (pythonCall_step s e) evs"
  by (simp add: pythonCall_run_def)

lemma step_listening: "listening (pythonCall_step s e) = listening s"
  by (cases e)
     (simp_all add: pythonCall_step_def pythonCall_stdout_def pythonCall_stderr_def
        pythonCall_close_def pythonCall_error_def settle1_def split: option.splits)

lemma run_listening: "listening (pythonCall_run s evs) = listening s"
  by (induction evs arbitrary: s) (simp_all add: pythonCall_run_Nil pythonCall_run_Cons step_listening)


lemma outs_Cons: "outs (e # evs) = outs [e] @ outs evs"
  by (cases e) simp_all

lemma errs_Cons: "errs (e # evs) = errs [e] @ errs evs"
  by (cases e) simp_all

lemma step_stdout:
  "listening s \<Longrightarrow> stdout (pythonCall_step s e) = stdout s @ concat (map toString (outs [e]))"
  by (cases e)
     (simp_all add: pythonCall_step_def pythonCall_stdout_def pythonCall_stderr_def
        pythonCall_close_def pythonCall_error_def settle1_def split: option.splits)

lemma step_stderr:
  "listening s \<Longrightarrow> stderr (pythonCall_step s e) = stderr s @ concat (map toString (errs [e]))"
  by (cases e)
     (simp_all add: pythonCall_step_def pythonCall_stdout_def pythonCall_stderr_def
        pythonCall_close_def pythonCall_error_def settle1_def split: option.splits)

text \<open>The data listeners append: each accumulated string is the decoded chunks in order.\<close>

lemma run_stdout_accumulates:
  "listening s \<Longrightarrow>
   stdout (pythonCall_run s evs) = stdout s @ concat (map toString (outs evs))"
proof (induction evs arbitrary: s)
  case Nil
  show ?case by (simp add: pythonCall_run_Nil)
next
  case (Cons e evs)
  from Cons.prems have "listening (pythonCall_step s e)" by (simp add: step_listening)
  from Cons.IH [OF this] Cons.prems show ?case
    by (simp add: pythonCall_run_Cons step_stdout outs_Cons [of e evs])
qed

lemma run_stderr_accumulates:
  "listening s \<Longrightarrow>
   stderr (pythonCall_run s evs) = stderr s @ concat (map toString (errs evs))"
proof (induction evs arbitrary: s)
  case Nil
  show ?case by (simp add: pythonCall_run_Nil)
next
  case (Cons e evs)
  from Cons.prems have "listening (pythonCall_step s e)" by (simp add: step_listening)
  from Cons.IH [OF this] Cons.prems show ?case
    by (simp add: pythonCall_run_Cons step_stderr errs_Cons [of e evs])
qed

lemma step_pending: "\<not> ends_call e \<Longrightarrow> result (pythonCall_step s e) = result s"
  by (cases e) (simp_all add: pythonCall_step_def pythonCall_stdout_def pythonCall_stderr_def)

lemma run_pending:
  "\<forall>e \<in> set evs. \<not> ends_call e \<Longrightarrow> result (pythonCall_run s evs) = result s"
  by (induction evs arbitrary: s) (simp_all add: pythonCall_run_def step_pending)

lemma step_settled: "result s = Some out \<Longrightarrow> result (pythonCall_step s e) = Some out"
  by (cases e)
     (simp_all add: pythonCall_step_def pythonCall_stdout_def pythonCall_stderr_def
        pythonCall_close_def pythonCall_error_def settle1_def split: option.splits)

lemma run_settled: "result s = Some out \<Longrightarrow> result (pythonCall_run s evs) = Some out"
  by (induction evs arbitrary: s) (simp_all add: pythonCall_run_def step_settled)

lemma step_ends:
  "ends_call e \<Longrightarrow> listening s \<Longrightarrow> result s = None \<Longrightarrow>
   \<exists>v. result (pythonCall_step s e) = Some (Resolved v)"
  by (cases e) (simp_all add: pythonCall_step_def pythonCall_close_def pythonCall_error_def
       settle1_def split: option.splits)





lemma spawned_state:
  "listening (pythonCall action ps ChildWithPipes)"
  "result (pythonCall action ps ChildWithPipes) = None"
  "stdout (pythonCall action ps ChildWithPipes) = []"
  "stderr (pythonCall action ps ChildWithPipes) = []"
  by (simp_all add: pythonCall_def)

text \<open>What the close listener does to a call that is still pending.\<close>

lemma close_resolves:
  assumes "listening s" and "result s = None"
  shows "result (pythonCall_step s (Exit code)) =
           Some (Resolved (case JSON_parse (last_line (stdout s)) of
              Some v \<Rightarrow> v
            | None \<Rightarrow> failure (exit_message code (stderr s) (stdout s))))"
  using assms
  by (simp add: pythonCall_step_def pythonCall_close_def settle1_def split: option.splits)

text \<open>The first close or error event settles the promise; what follows changes nothing.\<close>

lemma first_end_decides:
  assumes "\<forall>e \<in> set evs. \<not> ends_call e" and "ends_call e" and "listening s"
    and "result s = None"
  shows "result (pythonCall_run s (evs @ e # rest)) =
           result (pythonCall_step (pythonCall_run s evs) e)"
proof -
  let ?t = "pythonCall_run s evs"
  from assms(1,4) have "result ?t = None" by (simp add: run_pending)
  moreover from assms(3) have "listening ?t" by (simp add: run_listening)
  ultimately obtain v where "result (pythonCall_step ?t e) = Some (Resolved v)"
    using assms(2) step_ends by blast
  then show ?thesis
    by (simp add: pythonCall_run_append pythonCall_run_Cons run_settled)
qed

lemma close_parses_last_line:
  assumes "\<forall>e \<in> set evs. \<not> ends_call e"
    and "concat (map toString (outs evs)) = pre @ l @ post"
    and "pre = [] \<or> last pre = NL" and "NL \<notin> set l" and "trim l \<noteq> []"
    and "\<forall>c \<in> set post. is_ws c"
  shows "result (pythonCall_run (pythonCall action ps ChildWithPipes) (evs @ Exit code # rest)) =
           Some (Resolved
             (case JSON_parse (if \<forall>c \<in> set pre. is_ws c then trim l else trim_end l) of
                Some v \<Rightarrow> v
              | None \<Rightarrow> failure (exit_message code (concat (map toString (errs evs)))
                          (concat (map toString (outs evs))))))"
proof -
  let ?init = "pythonCall action ps ChildWithPipes"
  let ?s = "pythonCall_run ?init evs"
  have out: "stdout ?s = concat (map toString (outs evs))"
    using run_stdout_accumulates [of ?init evs] by (simp add: spawned_state)
  have err: "stderr ?s = concat (map toString (errs evs))"
    using run_stderr_accumulates [of ?init evs] by (simp add: spawned_state)
  have pend: "result ?s = None"
    using assms(1) by (simp add: run_pending spawned_state)
  have lis: "listening ?s" by (simp add: run_listening spawned_state)
  have ll: "last_line (concat (map toString (outs evs))) =
      (if \<forall>c \<in> set pre. is_ws c then trim l else trim_end l)"
    unfolding assms(2) using assms(3-6) by (rule last_line_framed)
  have "result (pythonCall_run ?init (evs @ Exit code # rest)) =
          result (pythonCall_step ?s (Exit code))"
    using assms(1) by (intro first_end_decides) (simp_all add: spawned_state)
  also have "\<dots> = Some (Resolved (case JSON_parse (last_line (stdout ?s)) of
              Some v \<Rightarrow> v
            | None \<Rightarrow> failure (exit_message code (stderr ?s) (stdout ?s))))"
    using lis pend by (rule close_resolves)
  finally show ?thesis by (simp only: out err ll)
qed

text \<open>Output without a line that is not blank: the default \<^verbatim>\<open>'{}'\<close> is parsed.\<close>

lemma blank_output_default:
  assumes "\<forall>e \<in> set evs. \<not> ends_call e"
    and "trim (concat (map toString (outs evs))) = []"
  shows "result (pythonCall_run (pythonCall action ps ChildWithPipes) (evs @ Exit code # rest)) =
           Some (Resolved (JObject []))"
proof -
  let ?init = "pythonCall action ps ChildWithPipes"
  let ?s = "pythonCall_run ?init evs"
  have out: "stdout ?s = concat (map toString (outs evs))"
    using run_stdout_accumulates [of ?init evs] by (simp add: spawned_state)
  have pend: "result ?s = None"
    using assms(1) by (simp add: run_pending spawned_state)
  have lis: "listening ?s" by (simp add: run_listening spawned_state)
  have "result (pythonCall_run ?init (evs @ Exit code # rest)) =
          result (pythonCall_step ?s (Exit code))"
    using assms(1) by (intro first_end_decides) (simp_all add: spawned_state)
  also have "\<dots> = Some (Resolved (case JSON_parse (last_line (stdout ?s)) of
              Some v \<Rightarrow> v
            | None \<Rightarrow> failure (exit_message code (stderr ?s) (stdout ?s))))"
    using lis pend by (rule close_resolves)
  finally show ?thesis
    using assms(2) by (simp add: out last_line_blank JSON_parse_braces)
qed

section \<open>Decoding chunk by chunk\<close>

text \<open>
  The stdout listener decodes each chunk on its own. Where decoding the chunks one by
  one gives the text of the whole, as it does for ASCII output, the chunking does not
  matter.
\<close>

lemma utf8_run_ascii:
  "\<forall>b \<in> set bs. (of_char b :: nat) < 128 \<Longrightarrow> utf8_run utf8_init bs = map of_char bs"
  by (induction bs) (simp_all add: utf8_step_def utf8_lead_def utf8_init_def)

lemma toString_ascii:
  "\<forall>b \<in> set bs. (of_char b :: nat) < 128 \<Longrightarrow> toString bs = map of_char bs"
  by (simp add: toString_def utf8_run_ascii)

lemma toString_ascii_chunks:
  assumes "\<forall>c \<in> set chunks. \<forall>b \<in> set c. (of_char b :: nat) < 128"
  shows "concat (map toString chunks) = toString (concat chunks)"
proof -
  have "map toString chunks = map (map of_char) chunks"
    using assms by (simp add: toString_ascii)
  moreover have "toString (concat chunks) = map of_char (concat chunks)"
    using assms by (intro toString_ascii) auto
  ultimately show ?thesis by (simp only: map_concat)
qed

lemma stdout_chunking:
  assumes "NL \<notin> set (buffer s)"
    and "concat (map toString chunks) = toString (concat chunks)"
  shows "run s (map StdoutData chunks) = bridge_stdout s (concat chunks)"
  using assms by (simp add: run_stdout feed_chunks bridge_stdout_feed)

section \<open>The bridge after its worker has closed\<close>

text \<open>
  The close listener leaves \<open>child\<close> as it is, and \<^verbatim>\<open>call\<close> on a bridge that has a
  child, running or not, neither spawns nor settles the new promise.
\<close>

lemma close_keeps_child:
  "child (bridge_close s) = child s \<and> spawned (bridge_close s) = spawned s"
  by (simp add: bridge_close_def)

lemma call_on_child:
  assumes "child s = Some h"
  shows "spawned (snd (call s action ps)) = spawned s \<and>
         child (snd (call s action ps)) = Some h \<and>
         written (snd (call s action ps)) = written s @ [(h, action, ps)] \<and>
         promises (snd (call s action ps)) ! fst (call s action ps) = None"
  using assms by (simp add: call_def Let_def)

section \<open>The claims\<close>

subsection \<open>C1: responses are correlated in arrival order\<close>

text \<open>
  Claim C1. On a bridge in a reachable state, let calls \<open>reqs\<close> be issued in order,
  returning the promises \<open>ps\<close>, and let the worker's output then arrive in any chunks
  whose decoded text, after the fragment already buffered, is the lines \<open>ls\<close>, each
  ended by a newline, and an unfinished rest \<open>r\<close>. Let \<open>vs\<close> be the values of the lines
  that parse as JSON, in order. Then the \<open>i\<close>-th parsed value resolves the \<open>i\<close>-th
  oldest pending call (the calls that were already pending first, then \<open>ps\<close> in the
  order of issue) and no other promise changes, the calls that got a value leave the
  pending map, and \<open>r\<close> stays in the buffer. So with calls A then B and the lines respA
  then respB, A resolves to respA and B to respB.
\<close>

theorem fifo_correlation:
  assumes "bridge_inv s"
    and "calls s reqs = (ps, s1)"
    and "list_all (\<lambda>l. NL \<notin> set l) ls" and "NL \<notin> set r"
    and "buffer s @ concat (map toString chunks) = concat (map (\<lambda>l. l @ [NL]) ls) @ r"
    and "vs = List.map_filter JSON_parse ls"
  shows "(\<forall>i. i < length (map snd (pending s) @ ps) \<longrightarrow> i < length vs \<longrightarrow>
            promises (run s1 (map StdoutData chunks)) ! ((map snd (pending s) @ ps) ! i) =
              Some (Resolved (vs ! i))) \<and>
         (\<forall>q. q \<notin> set (take (length vs) (map snd (pending s) @ ps)) \<longrightarrow>
            promises (run s1 (map StdoutData chunks)) ! q = promises s1 ! q) \<and>
         pending (run s1 (map StdoutData chunks)) = drop (length vs) (pending s1) \<and>
         buffer (run s1 (map StdoutData chunks)) = r"
proof -
  from calls_enqueue [OF assms(1), of reqs] assms(2)
  have order: "map snd (pending s1) = map snd (pending s) @ ps"
    and buf: "buffer s1 = buffer s" and inv1: "bridge_inv s1"
    by simp_all
  from inv1 have nl: "NL \<notin> set (buffer s1)" by (simp add: bridge_inv_def)
  have sp: "split_nl (concat (map (\<lambda>l. l @ [NL]) ls) @ r) = ls @ [r]"
    using assms(3,4) by (rule split_nl_lines_concat)
  have "run s1 (map StdoutData chunks) = feed s1 (concat (map toString chunks))"
    using nl by (simp add: run_stdout feed_chunks)
  then have fin: "run s1 (map StdoutData chunks) = (foldl process_line s1 ls)\<lparr>buffer := r\<rparr>"
    by (simp add: feed_lines buf assms(5) sp)
  note fifo = process_lines_fifo [OF inv1 assms(6)]
  have "\<forall>i. i < length (map snd (pending s) @ ps) \<longrightarrow> i < length vs \<longrightarrow>
            promises (foldl process_line s1 ls) ! ((map snd (pending s) @ ps) ! i) =
              Some (Resolved (vs ! i))"
  proof (intro allI impI)
    fix i assume i: "i < length (map snd (pending s) @ ps)" "i < length vs"
    from i(1) have "i < length (pending s1)"
      using order by (metis length_map)
    moreover then have "snd (pending s1 ! i) = (map snd (pending s) @ ps) ! i"
      using order by (metis nth_map)
    ultimately have "promises (foldl process_line s1 ls) ! snd (pending s1 ! i) =
              Some (Resolved (vs ! i))"
      and "snd (pending s1 ! i) = (map snd (pending s) @ ps) ! i"
      using fifo i(2) by blast+
    then show "promises (foldl process_line s1 ls) ! ((map snd (pending s) @ ps) ! i) =
              Some (Resolved (vs ! i))"
      by simp
  qed
  moreover have "snd ` set (take (length vs) (pending s1)) =
      set (take (length vs) (map snd (pending s) @ ps))"
    using order by (metis set_map take_map)
  ultimately show ?thesis using fifo by (simp add: fin)
qed

text \<open>
  Calls A and B on a new bridge, answered by two lines that arrive in two chunks, the
  second line split between them and followed by the start of a third.
\<close>

theorem fifo_correlation_witness:
  \<open>fst (calls (new_bridge False) [(lit ''A'', []), (lit ''B'', [])]) = [0, 1] \<and>
   promises (run (snd (calls (new_bridge False) [(lit ''A'', []), (lit ''B'', [])]))
      (map StdoutData [''{"ok":true,"data":"respA"}\<newline>{"ok":tr'',
                       ''ue,"data":"respB"}\<newline>{"o''])) ! 0 =
     Some (Resolved (JObject [(lit ''ok'', JBool True), (lit ''data'', JString (lit ''respA''))])) \<and>
   promises (run (snd (calls (new_bridge False) [(lit ''A'', []), (lit ''B'', [])]))
      (map StdoutData [''{"ok":true,"data":"respA"}\<newline>{"ok":tr'',
                       ''ue,"data":"respB"}\<newline>{"o''])) ! 1 =
     Some (Resolved (JObject [(lit ''ok'', JBool True), (lit ''data'', JString (lit ''respB''))])) \<and>
   pending (run (snd (calls (new_bridge False) [(lit ''A'', []), (lit ''B'', [])]))
      (map StdoutData [''{"ok":true,"data":"respA"}\<newline>{"ok":tr'',
                       ''ue,"data":"respB"}\<newline>{"o''])) = [] \<and>
   buffer (run (snd (calls (new_bridge False) [(lit ''A'', []), (lit ''B'', [])]))
      (map StdoutData [''{"ok":true,"data":"respA"}\<newline>{"ok":tr'',
                       ''ue,"data":"respB"}\<newline>{"o''])) = lit ''{"o''\<close>
proof -
  let ?reqs = "[(lit ''A'', []), (lit ''B'', [])] :: (jsstring \<times> params) list"
  let ?chunks = \<open>[''{"ok":true,"data":"respA"}\<newline>{"ok":tr'',
                  ''ue,"data":"respB"}\<newline>{"o'']\<close>
  let ?ls = \<open>[lit ''{"ok":true,"data":"respA"}'', lit ''{"ok":true,"data":"respB"}'']\<close>
  let ?vs = "[JObject [(lit ''ok'', JBool True), (lit ''data'', JString (lit ''respA''))],
              JObject [(lit ''ok'', JBool True), (lit ''data'', JString (lit ''respB''))]]"
  let ?s1 = "snd (calls (new_bridge False) ?reqs)"
  let ?fin = "run ?s1 (map StdoutData ?chunks)"
  have 1: "bridge_inv (new_bridge False)" by (rule bridge_inv_new)
  have ps: "fst (calls (new_bridge False) ?reqs) = [0, 1]"
    by (simp add: bridge_eval)
  then have 2: "calls (new_bridge False) ?reqs = ([0, 1], ?s1)"
    by (metis prod.collapse)
  have 3: "list_all (\<lambda>l. NL \<notin> set l) ?ls"
    by (simp add: js_eval)
  have 4: \<open>NL \<notin> set (lit ''{"o'')\<close>
    by (simp add: js_eval)
  have 5: \<open>buffer (new_bridge False) @ concat (map toString ?chunks) =
      concat (map (\<lambda>l. l @ [NL]) ?ls) @ lit ''{"o''\<close>
    by (simp add: js_eval new_bridge_def)
  have 6: "?vs = List.map_filter JSON_parse ?ls"
    by (simp add: js_eval)
  have pend: "pending (new_bridge False) = []" by (simp add: new_bridge_def)
  have p1: "pending ?s1 = [(1, 0), (2, 1)]" by (simp add: bridge_eval)
  note fifo = fifo_correlation [OF 1 2 3 4 5 6]
  have all: "\<forall>i. i < length (map snd (pending (new_bridge False)) @ [0, 1]) \<longrightarrow>
        i < length ?vs \<longrightarrow>
        promises ?fin ! ((map snd (pending (new_bridge False)) @ [0, 1]) ! i) =
          Some (Resolved (?vs ! i))"
    by (rule fifo [THEN conjunct1])
  have rest: "pending ?fin = drop (length ?vs) (pending ?s1)"
    by (rule fifo [THEN conjunct2, THEN conjunct2, THEN conjunct1])
  have buf: \<open>buffer ?fin = lit ''{"o''\<close>
    by (rule fifo [THEN conjunct2, THEN conjunct2, THEN conjunct2])
  have a: "promises ?fin ! 0 = Some (Resolved (?vs ! 0))"
    using all [rule_format, of 0] unfolding pend by simp
  have b: "promises ?fin ! 1 = Some (Resolved (?vs ! 1))"
    using all [rule_format, of 1] unfolding pend by simp
  have c: "pending ?fin = []"
    unfolding rest p1 by simp
  from ps a b c buf show ?thesis by simp
qed

subsection \<open>C2: the close listener rejects what is pending\<close>

text \<open>
  Claim C2. When the worker process closes, by a normal exit or a crash (the listener
  takes no argument), every call still pending is rejected with the error
  \<^verbatim>\<open>Python process closed\<close> and the pending map is emptied.
\<close>

theorem close_rejects_pending:
  assumes "bridge_inv s"
  shows "pending (bridge_close s) = [] \<and>
         list_all (\<lambda>(k, p). promises (bridge_close s) ! p = Some (Rejected closed_message))
           (pending s)"
proof -
  from assms have "distinct (map snd (pending s))"
    and "list_all (\<lambda>(k, p). p < length (promises s) \<and> promises s ! p = None) (pending s)"
    by (auto simp: bridge_inv_def list_all_iff)
  from bridge_close_rejects [OF this, of "Rejected closed_message"]
  show ?thesis by (simp add: bridge_close_def)
qed

theorem close_rejects_pending_witness:
  "pending (bridge_close (snd (calls (new_bridge False) [(lit ''A'', []), (lit ''B'', [])]))) = [] \<and>
   promises (bridge_close (snd (calls (new_bridge False) [(lit ''A'', []), (lit ''B'', [])]))) ! 0 =
     Some (Rejected (lit ''Python process closed'')) \<and>
   promises (bridge_close (snd (calls (new_bridge False) [(lit ''A'', []), (lit ''B'', [])]))) ! 1 =
     Some (Rejected (lit ''Python process closed''))"
proof -
  let ?s = "snd (calls (new_bridge False) [(lit ''A'', []), (lit ''B'', [])])"
  have "bridge_inv ?s"
    by (rule calls_enqueue [OF bridge_inv_new, THEN conjunct2, THEN conjunct2, THEN conjunct1])
  from close_rejects_pending [OF this]
  have a: "pending (bridge_close ?s) = []"
    and b: "list_all (\<lambda>(k, p). promises (bridge_close ?s) ! p =
           Some (Rejected closed_message)) (pending ?s)"
    by blast+
  have "pending ?s = [(1, 0), (2, 1)]" by (simp add: bridge_eval)
  with b have "promises (bridge_close ?s) ! 0 = Some (Rejected closed_message)"
    and "promises (bridge_close ?s) ! 1 = Some (Rejected closed_message)"
    by simp_all
  with a show ?thesis by (simp add: closed_message_def)
qed

subsection \<open>C3: the one-shot invoker parses the last line that is not blank\<close>

text \<open>
  Claim C3. \<^verbatim>\<open>pythonCall\<close> accumulates the worker's stdout until the process closes:
  the string it holds is the decoded chunks of all stdout events, in order. It resolves
  to what the last non-blank line parses to, whatever lines came before it, whatever
  arrived on stderr and whatever the exit code: if the accumulated output is earlier
  lines \<open>pre\<close>, then a line \<open>l\<close> that is not blank and parses to \<open>v\<close> (white space at
  its ends or not), then white space only, the promise resolves to \<open>v\<close>.
\<close>

theorem last_line_authoritative:
  assumes "\<forall>e \<in> set evs. \<not> ends_call e"
    and "concat (map toString (outs evs)) = pre @ l @ post"
    and "pre = [] \<or> last pre = NL" and "NL \<notin> set l" and "trim l \<noteq> []"
    and "\<forall>c \<in> set post. is_ws c"
    and "JSON_parse l = Some v"
  shows "stdout (pythonCall_run (pythonCall action ps ChildWithPipes) evs) =
           concat (map toString (outs evs)) \<and>
         result (pythonCall_run (pythonCall action ps ChildWithPipes) (evs @ [Exit code])) =
           Some (Resolved v)"
proof -
  have "stdout (pythonCall_run (pythonCall action ps ChildWithPipes) evs) =
          concat (map toString (outs evs))"
    using run_stdout_accumulates [of "pythonCall action ps ChildWithPipes" evs]
    by (simp add: spawned_state)
  moreover have "JSON_parse (if \<forall>c \<in> set pre. is_ws c then trim l else trim_end l) = Some v"
    using assms(7) by (simp add: JSON_parse_trim JSON_parse_trim_end)
  then have "result (pythonCall_run (pythonCall action ps ChildWithPipes) (evs @ [Exit code])) =
          Some (Resolved v)"
    using close_parses_last_line [OF assms(1-6), of action ps code "[]"] by simp
  ultimately show ?thesis by simp
qed

text \<open>
  The worker that writes \<^verbatim>\<open>noise\<close>, a newline, \<^verbatim>\<open>{"ok":true,"data":{"x":1}}\<close> and a
  newline, in three chunks, then exits with code 0; and a worker whose last line is
  indented and followed by blank lines, which exits with code 3.
\<close>

theorem last_line_authoritative_witness:
  \<open>result (pythonCall_run (pythonCall (lit ''get_stats'') [] ChildWithPipes)
      ([OutData ''noi'', ErrData ''warning'', OutData ''se\<newline>{"ok":tr'',
        OutData ''ue,"data":{"x":1}}\<newline>''] @ [Exit (Some 0)])) =
    Some (Resolved (JObject [(lit ''ok'', JBool True),
      (lit ''data'', JObject [(lit ''x'', JNumber (lit ''1''))])])) \<and>
   result (pythonCall_run (pythonCall (lit ''get_stats'') [] ChildWithPipes)
      ([OutData ''log\<newline>  {"ok":true} '', OutData ''\<newline>\<newline>''] @ [Exit (Some 3)])) =
    Some (Resolved (JObject [(lit ''ok'', JBool True)]))\<close>
proof -
  let ?evs = \<open>[OutData ''noi'', ErrData ''warning'', OutData ''se\<newline>{"ok":tr'',
        OutData ''ue,"data":{"x":1}}\<newline>'']\<close>
  let ?l = \<open>lit ''{"ok":true,"data":{"x":1}}''\<close>
  have 1: "\<forall>e \<in> set ?evs. \<not> ends_call e" by simp
  have 2: \<open>concat (map toString (outs ?evs)) = lit ''noise\<newline>'' @ ?l @ lit ''\<newline>''\<close>
    by (simp add: js_eval)
  have 3: \<open>lit ''noise\<newline>'' = [] \<or> last (lit ''noise\<newline>'') = NL\<close>
    by (simp add: js_eval)
  have 4: "NL \<notin> set ?l" by (simp add: js_eval)
  have 5: "trim ?l \<noteq> []" by (simp add: js_eval)
  have 6: \<open>\<forall>c \<in> set (lit ''\<newline>''). is_ws c\<close> by (simp add: js_eval)
  have 7: \<open>JSON_parse ?l = Some (JObject [(lit ''ok'', JBool True),
        (lit ''data'', JObject [(lit ''x'', JNumber (lit ''1''))])])\<close>
    by (simp add: js_eval)
  note a = last_line_authoritative [OF 1 2 3 4 5 6 7, of "lit ''get_stats''" "[]" "Some 0",
      THEN conjunct2]
  let ?evs' = \<open>[OutData ''log\<newline>  {"ok":true} '', OutData ''\<newline>\<newline>'']\<close>
  let ?l' = \<open>lit ''  {"ok":true} ''\<close>
  have k1: "\<forall>e \<in> set ?evs'. \<not> ends_call e" by simp
  have k2: \<open>concat (map toString (outs ?evs')) = lit ''log\<newline>'' @ ?l' @ lit ''\<newline>\<newline>''\<close>
    by (simp add: js_eval)
  have k3: \<open>lit ''log\<newline>'' = [] \<or> last (lit ''log\<newline>'') = NL\<close>
    by (simp add: js_eval)
  have k4: "NL \<notin> set ?l'" by (simp add: js_eval)
  have k5: "trim ?l' \<noteq> []" by (simp add: js_eval)
  have k6: \<open>\<forall>c \<in> set (lit ''\<newline>\<newline>''). is_ws c\<close> by (simp add: js_eval)
  have k7: \<open>JSON_parse ?l' = Some (JObject [(lit ''ok'', JBool True)])\<close>
    by (simp add: js_eval)
  note b = last_line_authoritative [OF k1 k2 k3 k4 k5 k6 k7, of "lit ''get_stats''" "[]" "Some 3",
      THEN conjunct2]
  from a b show ?thesis by (rule conjI)
qed

subsection \<open>C4: a worker that closes without output\<close>

text \<open>
  Claim C4 asks that a worker whose last stdout line is missing or does not parse
  resolves to a non-ok response whose error text holds the exit code and the tails of
  stdout and stderr. For a last line that does not parse the code does so. For a worker
  that writes nothing to stdout it does not: \<^verbatim>\<open>lines[lines.length - 1] || '{}'\<close> puts
  \<^verbatim>\<open>'{}'\<close> in the place of the missing line, that text parses, and the promise
  resolves to the empty object, which has neither \<^verbatim>\<open>ok\<close> nor an error text, whatever
  the exit code and whatever stderr holds.
\<close>

theorem no_output_resolves_empty_object:
  \<open>result (pythonCall_run (pythonCall (lit ''get_stats'') [] ChildWithPipes) [Exit (Some 1)]) =
     Some (Resolved (JObject [])) \<and>
   result (pythonCall_run (pythonCall (lit ''get_stats'') [] ChildWithPipes)
      [ErrData ''Traceback'', Exit (Some 1)]) =
     Some (Resolved (JObject [])) \<and>
   result (pythonCall_run (pythonCall (lit ''get_stats'') [] ChildWithPipes)
      [ErrData ''Traceback'', OutData ''oops\<newline>'', Exit (Some 1)]) =
     Some (Resolved (JObject [(lit ''ok'', JBool False),
       (lit ''error'', JString
         (lit ''Python process exited with code 1. stderr: Traceback. stdout: oops\<newline>''))]))\<close>
  by (simp add: js_eval oneshot_eval)

subsection \<open>C5: what settles the one-shot promise\<close>




subsection \<open>C6: chunks that split a character\<close>

text \<open>
  Claim C6 asks that feeding a byte sequence in any chunks gives the values that feeding
  it whole gives. The code decodes each chunk before buffering it, so a chunk boundary
  inside a multi-byte UTF-8 character changes the text: the line
  \<^verbatim>\<open>{"ok":true,"data":"\<close>, the two bytes C3 A9, \<^verbatim>\<open>"}\<close> resolves a pending call with
  the one-character string U+00E9 when it arrives whole, and with two U+FFFD when the
  chunks end between the two bytes.
\<close>

theorem split_character_corrupted:
  \<open>promises (run (new_bridge False)
      [Call (lit ''A'') [], StdoutData (''{"ok":true,"data":"'' @ [CHR 0xC3, CHR 0xA9] @ ''"}\<newline>'')]) =
     [Some (Resolved (JObject [(lit ''ok'', JBool True), (lit ''data'', JString [233])]))] \<and>
   promises (run (new_bridge False)
      [Call (lit ''A'') [], StdoutData (''{"ok":true,"data":"'' @ [CHR 0xC3]),
       StdoutData ([CHR 0xA9] @ ''"}\<newline>'')]) =
     [Some (Resolved (JObject [(lit ''ok'', JBool True), (lit ''data'', JString [65533, 65533])]))]\<close>
  by (simp add: bridge_eval js_eval)

subsection \<open>C7: blank lines and lines that are not JSON are dropped\<close>

text \<open>
  Claim C7. A complete line that is blank or does not parse as JSON (the buffered
  fragment and the text \<open>l\<close> up to the newline) changes nothing but the buffer: no
  promise is settled, the pending map is as before, no error arises, and the text after
  it is processed from the same state with an empty buffer, as if the line had never
  been sent.
\<close>

theorem bad_line_dropped:
  assumes "NL \<notin> set (buffer s)" and "NL \<notin> set l"
    and "trim (buffer s @ l) = [] \<or> JSON_parse (buffer s @ l) = None"
    and "toString data = l @ [NL] @ rest"
  shows "bridge_stdout s data = feed (s\<lparr>buffer := []\<rparr>) rest \<and>
         (rest = [] \<longrightarrow> bridge_stdout s data = s\<lparr>buffer := []\<rparr>)"
proof -
  have "NL \<notin> set (buffer s @ l)" using assms(1,2) by simp
  then have sp: "split_nl ((buffer s @ l) @ NL # rest) = (buffer s @ l) # split_nl rest"
    by (rule split_nl_line)
  have "process_line s (buffer s @ l) = s"
    using assms(3) by (rule process_line_dropped)
  then have a: "bridge_stdout s data = feed (s\<lparr>buffer := []\<rparr>) rest"
    using sp by (simp add: bridge_stdout_feed feed_lines assms(4) process_lines_buffer)
  have "feed (s\<lparr>buffer := []\<rparr>) [] = s\<lparr>buffer := []\<rparr>"
    by (rule feed_Nil) simp
  with a show ?thesis by simp
qed

theorem bad_line_dropped_witness:
  \<open>bridge_stdout (snd (call (new_bridge False) (lit ''A'') []))
     ''Traceback (most recent call last):\<newline>'' =
   (snd (call (new_bridge False) (lit ''A'') []))\<lparr>buffer := []\<rparr> \<and>
   bridge_stdout (snd (call (new_bridge False) (lit ''A'') []))
     ''{"ok":tr\<newline>{"ok":true}\<newline>'' =
   feed ((snd (call (new_bridge False) (lit ''A'') []))\<lparr>buffer := []\<rparr>)
     (lit ''{"ok":true}\<newline>'')\<close>
proof -
  let ?s = "snd (call (new_bridge False) (lit ''A'') [])"
  have b: "buffer ?s = []" by (simp add: bridge_eval)
  have 1: "NL \<notin> set (buffer ?s)" by (simp add: b)
  have 2: \<open>NL \<notin> set (lit ''Traceback (most recent call last):'')\<close>
    by (simp add: js_eval)
  have 3: \<open>trim (buffer ?s @ lit ''Traceback (most recent call last):'') = [] \<or>
      JSON_parse (buffer ?s @ lit ''Traceback (most recent call last):'') = None\<close>
    unfolding b by (simp add: js_eval)
  have 4: \<open>toString ''Traceback (most recent call last):\<newline>'' =
      lit ''Traceback (most recent call last):'' @ [NL] @ []\<close>
    by (simp add: js_eval)
  have 5: \<open>NL \<notin> set (lit ''{"ok":tr'')\<close>
    by (simp add: js_eval)
  have 6: \<open>trim (buffer ?s @ lit ''{"ok":tr'') = [] \<or>
      JSON_parse (buffer ?s @ lit ''{"ok":tr'') = None\<close>
    unfolding b by (simp add: js_eval)
  have 7: \<open>toString ''{"ok":tr\<newline>{"ok":true}\<newline>'' =
      lit ''{"ok":tr'' @ [NL] @ lit ''{"ok":true}\<newline>''\<close>
    by (simp add: js_eval)
  from bad_line_dropped [OF 1 2 3 4]
  have a: \<open>bridge_stdout ?s ''Traceback (most recent call last):\<newline>'' = ?s\<lparr>buffer := []\<rparr>\<close>
    by blast
  from bad_line_dropped [OF 1 5 6 7]
  have b: \<open>bridge_stdout ?s ''{"ok":tr\<newline>{"ok":true}\<newline>'' =
      feed (?s\<lparr>buffer := []\<rparr>) (lit ''{"ok":true}\<newline>'')\<close>
    by blast
  from a b show ?thesis by (rule conjI)
qed

subsection \<open>C8: a call after the worker has crashed\<close>

text \<open>
  Claim C8 asks that a call made after the worker has terminated fails or spawns a new
  worker. After a crash the code does neither: on a new bridge, call A, the close of the
  worker, then call B leave B's promise 1 pending under key 2, with the process count
  still 1 and the request written to the closed process 0.
\<close>

theorem call_after_crash_left_pending:
  "call (run (new_bridge False) [Call (lit ''A'') [], Close]) (lit ''B'') [] =
     (1, \<lparr>child = Some 0, buffer = [], pending = [(2, 1)], nextId = 3,
          stderrCallback = False,
          promises = [Some (Rejected (lit ''Python process closed'')), None],
          spawned = 1, written = [(0, lit ''A'', []), (0, lit ''B'', [])],
          killed = [], forwarded = []\<rparr>)"
  by (simp add: bridge_eval)

subsection \<open>C9: the one-shot invoker has no timeout\<close>

text \<open>
  Claim C9, as the code has it. \<^verbatim>\<open>pythonCall\<close> takes an action and parameters and sets
  no timer: as long as the spawned worker has neither closed nor failed to spawn, the
  promise stays pending, however much time goes by and whatever arrives on the streams.
\<close>

theorem pythonCall_has_no_timeout:
  assumes "\<forall>e \<in> set evs. \<not> ends_call e"
  shows "result (pythonCall_run (pythonCall action ps ChildWithPipes) evs) = None"
  using assms by (simp add: run_pending spawned_state)

theorem pythonCall_has_no_timeout_witness:
  \<open>result (pythonCall_run (pythonCall (lit ''get_stats'') [] ChildWithPipes)
      [OutData ''working'', Elapsed 30000, ErrData ''still working'', Elapsed 3600000]) = None\<close>
proof -
  have "\<forall>e \<in> set [OutData ''working'', Elapsed 30000, ErrData ''still working'',
      Elapsed 3600000]. \<not> ends_call e"
    by simp
  then show ?thesis by (rule pythonCall_has_no_timeout)
qed

text \<open>
  The claim as the specification states it has the call resolve to a timeout failure
  when the timeout elapses. One minute after the spawn of a silent worker the promise is
  pending.
\<close>

theorem timeout_counterexample:
  "result (pythonCall_run (pythonCall (lit ''get_stats'') [] ChildWithPipes) [Elapsed 60000]) = None"
  by (simp add: oneshot_eval)

subsection \<open>C10: a response nobody waits for\<close>

text \<open>
  Claim C10. While no call is pending, output of the worker changes only the buffer:
  a line that parses is discarded, no promise is settled, nothing is queued, and the
  pending map, the next id and all else are as they were, so later calls are correlated
  as if the line had not arrived.
\<close>

theorem unsolicited_discarded:
  assumes "pending s = []"
  shows "bridge_stdout s data = s\<lparr>buffer := last (split_nl (buffer s @ toString data))\<rparr>"
  using assms by (simp add: bridge_stdout_feed feed_lines process_lines_idle)

theorem unsolicited_discarded_witness:
  \<open>bridge_stdout (start (new_bridge False)) ''{"ok":true,"data":"stray"}\<newline>'' =
   start (new_bridge False)\<close>
proof -
  have 1: "pending (start (new_bridge False)) = []"
    by (simp add: bridge_eval)
  have 2: \<open>last (split_nl (buffer (start (new_bridge False)) @
      toString ''{"ok":true,"data":"stray"}\<newline>'')) = []\<close>
    by (simp add: bridge_eval js_eval)
  have 3: "(start (new_bridge False))\<lparr>buffer := []\<rparr> = start (new_bridge False)"
    by (simp add: bridge_eval)
  from unsolicited_discarded [OF 1] 2 3 show ?thesis by simp
qed

end

